theory Spec2Isabelle
  imports Main
begin

section \<open>Text: characters, stripping, splitting, lines\<close>

text \<open>
  Python strings are modelled as \<^typ>\<open>string\<close>; a character stands for the code point
  of the same number (0 to 255).
\<close>

abbreviation LF :: char where "LF \<equiv> CHR 0x0A"
abbreviation CR :: char where "CR \<equiv> CHR 0x0D"
abbreviation TAB :: char where "TAB \<equiv> CHR 0x09"
abbreviation DQUOTE :: char where "DQUOTE \<equiv> CHR 0x22"

text \<open>\<^verbatim>\<open>str.isspace\<close> on the code points below 256: 9 to 13, 28 to 32, 133 and 160.\<close>

definition py_isspace :: "char \<Rightarrow> bool" where
  "py_isspace c =
     (let n = (of_char c :: nat)
      in (9 \<le> n \<and> n \<le> 13) \<or> (28 \<le> n \<and> n \<le> 32) \<or> n = 133 \<or> n = 160)"

text \<open>\<^verbatim>\<open>s.strip(chars)\<close>: drop the leading and the trailing characters that satisfy \<open>p\<close>.\<close>

definition strip_where :: "(char \<Rightarrow> bool) \<Rightarrow> string \<Rightarrow> string" where
  "strip_where p s = rev (dropWhile p (rev (dropWhile p s)))"

text \<open>\<^verbatim>\<open>s.strip()\<close>\<close>

definition strip :: "string \<Rightarrow> string" where
  "strip s = strip_where py_isspace s"

text \<open>\<^verbatim>\<open>s.strip('"')\<close>\<close>

definition strip_quotes :: "string \<Rightarrow> string" where
  "strip_quotes s = strip_where (\<lambda>c. c = DQUOTE) s"

text \<open>
  \<^verbatim>\<open>s.split(sep)\<close> for a one-character separator: the fields between the separators;
  the result is never empty (\<^verbatim>\<open>''.split('\t') == ['']\<close>).
\<close>

fun split_on :: "char \<Rightarrow> string \<Rightarrow> string \<Rightarrow> string list" where
  "split_on sep cur [] = [cur]"
| "split_on sep cur (c # cs) =
     (if c = sep then cur # split_on sep [] cs else split_on sep (cur @ [c]) cs)"

definition split_tab :: "string \<Rightarrow> string list" where
  "split_tab s = split_on TAB [] s"

text \<open>
  \<^verbatim>\<open>for line in f\<close> on a file opened in text mode: the lines of the text, each with its
  terminator, where \<^verbatim>\<open>\n\<close>, \<^verbatim>\<open>\r\<close> and \<^verbatim>\<open>\r\n\<close> all end a line and are read as
  \<^verbatim>\<open>\n\<close>. The flag says that the previous character was a \<^verbatim>\<open>\r\<close>.
\<close>

fun lines_from :: "bool \<Rightarrow> string \<Rightarrow> string \<Rightarrow> string list" where
  "lines_from cr cur [] = (if cur = [] then [] else [cur])"
| "lines_from cr cur (c # cs) =
     (if c = LF then
        (if cr then lines_from False cur cs
         else (cur @ [LF]) # lines_from False [] cs)
      else if c = CR then (cur @ [LF]) # lines_from True [] cs
      else lines_from False (cur @ [c]) cs)"

definition file_lines :: "string \<Rightarrow> string list" where
  "file_lines txt = lines_from False [] txt"


section \<open>Results, messages, the world\<close>

text \<open>
  A call returns, raises an \<^verbatim>\<open>Exception\<close> (with its text) or leaves the process through
  \<^verbatim>\<open>sys.exit\<close>, which no \<^verbatim>\<open>except Exception\<close> catches.
\<close>

datatype 'a outcome = Return 'a | Raise string | SysExit nat

type_synonym url_record = "string \<times> string \<times> string"

text \<open>One constructor for each \<^verbatim>\<open>print\<close> (or block of prints), with the values it shows.\<close>

datatype msg =
    NoApiKey
  | CreatedFolder string
  | UsingFolder string
  | FolderError string
  | CreatedFallback string
  | FolderCritical string
  | LoadedCompleted nat
  | WarnLoadCompleted string
  | LoadedFailed nat
  | WarnLoadFailed string
  | SavedCompleted string
  | WarnSaveCompleted string
  | SavedFailed string string
  | WarnSaveFailed string
  | CsvNotFound string
  | RowInsufficient nat "string list"
  | LoadedCsv nat
  | CsvReadError string
  | Banner string string string string
  | Fetching
  | Retrieved
  | SavedTo string
  | FileSaveError string
  | ApiError string
  | FetchError string
  | Unexpected string
  | WillSaveTo string
  | CannotProceed string
  | NoUrls
  | AllProcessed
  | Found nat nat nat nat
  | Processing nat nat string
  | Pausing
  | Summary nat nat nat nat nat nat
  | Usage
  | Start
  | CannotCreate string

text \<open>What the program does that can be observed from outside, in the order it happens.\<close>

datatype event =
    Print msg
  | ApiCall string string string
  | Sleep nat

text \<open>
  The reader of a CSV file: the file is missing, or \<^verbatim>\<open>csv.reader\<close> yields these rows and
  then ends, or yields them and then raises.
\<close>

datatype csv_file = CsvMissing | CsvFile "string list list" "string option"

text \<open>The answer of the transcript service to one request.\<close>

datatype api_result = Transcript string | SupadataError string | OtherError string

text \<open>
  What the program reads and cannot change: the credential in the environment (after the
  optional environment file is loaded), the CSV files, the transcript service, and which
  operations of the file system fail, and with which error text.
\<close>

record env =
  api_key :: "string option"
  csv_at :: "string \<Rightarrow> csv_file"
  api :: "string \<Rightarrow> string \<Rightarrow> string \<Rightarrow> api_result"
  mkdir_err :: "string \<Rightarrow> string option"
  write_err :: "string \<Rightarrow> string option"
  append_err :: "string \<Rightarrow> string option"
  read_err :: "string \<Rightarrow> (nat \<times> string) option"

text \<open>
  What the program changes: the two ledger files (\<open>None\<close>: the file does not exist), the
  transcript files by path, the directories that exist, and the log of events. Transcript
  paths are taken to name files other than the two ledgers.
\<close>

record world =
  completed_txt :: "string option"
  failed_txt :: "string option"
  transcripts :: "string \<Rightarrow> string option"
  dirs :: "string set"
  log :: "event list"

definition say :: "msg \<Rightarrow> world \<Rightarrow> world" where
  "say m w = w\<lparr>log := log w @ [Print m]\<rparr>"

definition act :: "event \<Rightarrow> world \<Rightarrow> world" where
  "act a w = w\<lparr>log := log w @ [a]\<rparr>"

section \<open>The CSV loader\<close>

text \<open>
  The body of the loop of \<^verbatim>\<open>read_csv_urls\<close> over \<^verbatim>\<open>enumerate(reader, 1)\<close>: \<open>row_num\<close> is the
  number of the row, \<open>urls\<close> the records collected so far.
\<close>

definition record_of_row :: "string list \<Rightarrow> url_record" where
  "record_of_row row =
     (strip_quotes (row ! 0), strip_quotes (row ! 1),
      (if length row > 2 then strip_quotes (row ! 2) else []))"

fun read_rows :: "nat \<Rightarrow> string list list \<Rightarrow> url_record list \<Rightarrow> world \<Rightarrow> url_record list \<times> world" where
  "read_rows row_num [] urls w = (urls, w)"
| "read_rows row_num (row # rows) urls w =
     (if length row \<ge> 2 then read_rows (Suc row_num) rows (urls @ [record_of_row row]) w
      else read_rows (Suc row_num) rows urls (say (RowInsufficient row_num row) w))"

definition read_csv_urls :: "env \<Rightarrow> string \<Rightarrow> world \<Rightarrow> url_record list \<times> world" where
  "read_csv_urls e csv_file w =
     (case csv_at e csv_file of
        CsvMissing \<Rightarrow> ([], say (CsvNotFound csv_file) w)
      | CsvFile rows err \<Rightarrow>
          (let (urls, w1) = read_rows 1 rows [] w
           in case err of
                None \<Rightarrow> (urls, say (LoadedCsv (length urls)) w1)
              | Some x \<Rightarrow> (urls, say (CsvReadError x) w1)))"

section \<open>The two ledgers\<close>

abbreviation completed_file :: string where "completed_file \<equiv> ''youtube_url_completed.txt''"
abbreviation failed_file :: string where "failed_file \<equiv> ''youtube_url_failed.txt''"

text \<open>The loop of \<^verbatim>\<open>load_completed_urls\<close> over the lines of the file.\<close>

fun collect_completed :: "string list \<Rightarrow> string set \<Rightarrow> string set" where
  "collect_completed [] completed_urls = completed_urls"
| "collect_completed (line # ls) completed_urls =
     (let url = strip line
      in collect_completed ls (if url \<noteq> [] then insert url completed_urls else completed_urls))"

definition load_completed_urls :: "env \<Rightarrow> world \<Rightarrow> string set \<times> world" where
  "load_completed_urls e w =
     (case completed_txt w of
        None \<Rightarrow> ({}, w)
      | Some txt \<Rightarrow>
          (case read_err e completed_file of
             None \<Rightarrow>
               (let completed_urls = collect_completed (file_lines txt) {}
                in (completed_urls, say (LoadedCompleted (card completed_urls)) w))
           | Some (n, x) \<Rightarrow>
               (collect_completed (take n (file_lines txt)) {}, say (WarnLoadCompleted x) w)))"

text \<open>The loop of \<^verbatim>\<open>load_failed_urls\<close>: the line is stripped first, then split at the tabs.\<close>

fun collect_failed :: "string list \<Rightarrow> string set \<Rightarrow> string set" where
  "collect_failed [] failed_urls = failed_urls"
| "collect_failed (line # ls) failed_urls =
     (let parts = split_tab (strip line);
          url = (if parts \<noteq> [] then parts ! 0 else [])
      in collect_failed ls (if url \<noteq> [] then insert url failed_urls else failed_urls))"

definition load_failed_urls :: "env \<Rightarrow> world \<Rightarrow> string set \<times> world" where
  "load_failed_urls e w =
     (case failed_txt w of
        None \<Rightarrow> ({}, w)
      | Some txt \<Rightarrow>
          (case read_err e failed_file of
             None \<Rightarrow>
               (let failed_urls = collect_failed (file_lines txt) {}
                in (failed_urls, say (LoadedFailed (card failed_urls)) w))
           | Some (n, x) \<Rightarrow>
               (collect_failed (take n (file_lines txt)) {}, say (WarnLoadFailed x) w)))"

text \<open>The text of a file that may not exist yet: opening for append creates it empty.\<close>

definition file_text :: "string option \<Rightarrow> string" where
  "file_text f = (case f of None \<Rightarrow> [] | Some txt \<Rightarrow> txt)"

definition save_completed_url :: "env \<Rightarrow> string \<Rightarrow> world \<Rightarrow> world" where
  "save_completed_url e url w =
     (case append_err e completed_file of
        None \<Rightarrow>
          say (SavedCompleted url)
            (w\<lparr>completed_txt := Some (file_text (completed_txt w) @ url @ [LF])\<rparr>)
      | Some x \<Rightarrow> say (WarnSaveCompleted x) w)"

definition save_failed_url :: "env \<Rightarrow> string \<Rightarrow> string \<Rightarrow> world \<Rightarrow> world" where
  "save_failed_url e url reason w =
     (case append_err e failed_file of
        None \<Rightarrow>
          say (SavedFailed url reason)
            (w\<lparr>failed_txt := Some (file_text (failed_txt w) @ url @ [TAB] @ reason @ [LF])\<rparr>)
      | Some x \<Rightarrow> say (WarnSaveFailed x) w)"

section \<open>Credential and output directory\<close>

text \<open>\<^verbatim>\<open>if not api_key\<close> holds for a variable that is unset and for one that is empty.\<close>

definition load_environment :: "env \<Rightarrow> world \<Rightarrow> string outcome \<times> world" where
  "load_environment e w =
     (case api_key e of
        None \<Rightarrow> (SysExit 1, say NoApiKey w)
      | Some k \<Rightarrow> (if k = [] then (SysExit 1, say NoApiKey w) else (Return k, w)))"

text \<open>\<^verbatim>\<open>os.makedirs(d, exist_ok=True)\<close>: \<open>Inl\<close> is the error raised.\<close>

definition makedirs :: "env \<Rightarrow> string \<Rightarrow> world \<Rightarrow> string + world" where
  "makedirs e d w =
     (if d \<in> dirs w then Inr w
      else case mkdir_err e d of
             None \<Rightarrow> Inr (w\<lparr>dirs := insert d (dirs w)\<rparr>)
           | Some x \<Rightarrow> Inl x)"

definition ensure_transcripts_folder :: "env \<Rightarrow> world \<Rightarrow> string outcome \<times> world" where
  "ensure_transcripts_folder e w =
     (let transcripts_dir = ''transcripts''
      in if transcripts_dir \<in> dirs w then (Return transcripts_dir, say (UsingFolder transcripts_dir) w)
         else case makedirs e transcripts_dir w of
                Inr w1 \<Rightarrow> (Return transcripts_dir, say (CreatedFolder transcripts_dir) w1)
              | Inl x \<Rightarrow>
                  (let w1 = say (FolderError x) w;
                       fallback_dir = ''transcripts_fallback''
                   in case makedirs e fallback_dir w1 of
                        Inr w2 \<Rightarrow> (Return fallback_dir, say (CreatedFallback fallback_dir) w2)
                      | Inl y \<Rightarrow> (Raise y, say (FolderCritical y) w1)))"

section \<open>The video-ID extractor\<close>

text \<open>
  The regular expressions are modelled as backtracking matchers: a matcher takes the rest
  of the string at the position where it starts and gives the text of group 1 when the
  pattern matches there.
\<close>

type_synonym matcher = "string \<Rightarrow> string option"

text \<open>\<^verbatim>\<open>[a-zA-Z0-9_-]\<close>\<close>

definition id_char :: "char \<Rightarrow> bool" where
  "id_char c =
     (let n = (of_char c :: nat)
      in (97 \<le> n \<and> n \<le> 122) \<or> (65 \<le> n \<and> n \<le> 90) \<or> (48 \<le> n \<and> n \<le> 57)
         \<or> c = CHR ''_'' \<or> c = CHR ''-'')"

text \<open>\<^verbatim>\<open>([a-zA-Z0-9_-]{11})\<close> at the end of a pattern\<close>

definition match_id :: matcher where
  "match_id s = (if 11 \<le> length s \<and> list_all id_char (take 11 s) then Some (take 11 s) else None)"

text \<open>A literal text, followed by the rest of the pattern.\<close>

definition match_lit :: "string \<Rightarrow> matcher \<Rightarrow> matcher" where
  "match_lit lit k s = (if take (length lit) s = lit then k (drop (length lit) s) else None)"

text \<open>\<^verbatim>\<open>(?:a|b|c)\<close>: the alternatives in their order, each with the rest of the pattern.\<close>

fun match_alt :: "matcher list \<Rightarrow> matcher" where
  "match_alt [] s = None"
| "match_alt (m # ms) s = (case m s of Some v \<Rightarrow> Some v | None \<Rightarrow> match_alt ms s)"

text \<open>
  \<^verbatim>\<open>.*\<close>, greedy: take one more character that is not a newline and go on; when the rest
  of the pattern fails after that, try the rest of the pattern here.
\<close>

fun dot_star :: "matcher \<Rightarrow> matcher" where
  "dot_star k [] = k []"
| "dot_star k (c # cs) =
     (if c = LF then k (c # cs)
      else case dot_star k cs of Some v \<Rightarrow> Some v | None \<Rightarrow> k (c # cs))"

text \<open>\<^verbatim>\<open>re.search\<close>: the match at the leftmost position where the pattern matches.\<close>

fun re_search :: "matcher \<Rightarrow> string \<Rightarrow> string option" where
  "re_search m [] = m []"
| "re_search m (c # cs) = (case m (c # cs) of Some v \<Rightarrow> Some v | None \<Rightarrow> re_search m cs)"

definition direct_prefixes :: "string list" where
  "direct_prefixes = [''youtube.com/watch?v='', ''youtu.be/'', ''youtube.com/embed/'']"

definition pattern1 :: matcher where
  "pattern1 = match_alt (map (\<lambda>lit. match_lit lit match_id) direct_prefixes)"

definition pattern2 :: matcher where
  "pattern2 = match_lit ''youtube.com/watch?'' (dot_star (match_lit ''v='' match_id))"

definition pattern3 :: matcher where
  "pattern3 = match_lit ''youtube.com/v/'' match_id"

text \<open>The loop of \<^verbatim>\<open>extract_video_id\<close> over the patterns.\<close>

fun first_match :: "matcher list \<Rightarrow> string \<Rightarrow> string option" where
  "first_match [] url = None"
| "first_match (pattern # patterns) url =
     (case re_search pattern url of Some v \<Rightarrow> Some v | None \<Rightarrow> first_match patterns url)"

definition extract_video_id :: "string \<Rightarrow> string option" where
  "extract_video_id url = first_match [pattern1, pattern2, pattern3] url"

section \<open>The transcript fetcher\<close>

text \<open>\<^verbatim>\<open>os.path.join(a, b)\<close> on POSIX: an absolute second part replaces the first.\<close>

definition os_path_join :: "string \<Rightarrow> string \<Rightarrow> string" where
  "os_path_join a b =
     (if b \<noteq> [] \<and> hd b = CHR ''/'' then b
      else if a = [] \<or> last a = CHR ''/'' then a @ b
      else a @ ''/'' @ b)"

text \<open>What the six \<^verbatim>\<open>f.write\<close> calls put into the transcript file.\<close>

definition transcript_text :: "string \<Rightarrow> string \<Rightarrow> string \<Rightarrow> string \<Rightarrow> string \<Rightarrow> string" where
  "transcript_text video_id url description language content =
     (''Video ID: '' @ video_id @ [LF]) @
     (''URL: '' @ url @ [LF]) @
     (''Description: '' @ description @ [LF]) @
     (''Language: '' @ language @ [LF]) @
     (replicate 50 CHR ''-'' @ [LF, LF]) @
     content"

text \<open>
  The handler of the outermost \<^verbatim>\<open>except Exception\<close> of \<^verbatim>\<open>get_youtube_transcript\<close>.
\<close>

definition unexpected_error :: "env \<Rightarrow> string \<Rightarrow> string \<Rightarrow> world \<Rightarrow> bool outcome \<times> world" where
  "unexpected_error e url x w =
     (Return False, save_failed_url e url (''Unexpected error: '' @ x) (say (Unexpected x) w))"

text \<open>
  The body of \<^verbatim>\<open>get_youtube_transcript\<close>. The credential is read first, here, by
  \<^verbatim>\<open>load_environment\<close>, whose \<^verbatim>\<open>sys.exit\<close> is not caught. Making the client from
  the key is taken not to fail, and a write of the transcript file that fails is taken to
  leave the transcript files as they were.
\<close>

definition get_youtube_transcript ::
    "env \<Rightarrow> string \<Rightarrow> string \<Rightarrow> string \<Rightarrow> string \<Rightarrow> world \<Rightarrow> bool outcome \<times> world" where
  "get_youtube_transcript e url video_id description language w =
     (let (r1, w1) = load_environment e w
      in case r1 of
           SysExit c \<Rightarrow> (SysExit c, w1)
         | Raise x \<Rightarrow> unexpected_error e url x w1
         | Return key \<Rightarrow>
             (let (r2, w2) = ensure_transcripts_folder e w1
              in case r2 of
                   SysExit c \<Rightarrow> (SysExit c, w2)
                 | Raise x \<Rightarrow> unexpected_error e url x w2
                 | Return transcripts_dir \<Rightarrow>
                     (let w3 = say Fetching (say (Banner description url video_id language) w2);
                          w4 = act (ApiCall key url language) w3
                      in case api e key url language of
                           Transcript content \<Rightarrow>
                             (let w5 = say Retrieved w4;
                                  filename = os_path_join transcripts_dir (video_id @ ''.txt'')
                              in case write_err e filename of
                                   None \<Rightarrow>
                                     (let w6 = w5\<lparr>transcripts := (transcripts w5)
                                                 (filename \<mapsto>
                                                    transcript_text video_id url description language content)\<rparr>
                                      in (Return True, save_completed_url e url (say (SavedTo filename) w6)))
                                 | Some x \<Rightarrow>
                                     (Return False,
                                      save_failed_url e url (''File save error: '' @ x)
                                        (say (FileSaveError x) w5)))
                         | SupadataError x \<Rightarrow>
                             (Return False,
                              save_failed_url e url (''Supadata API error: '' @ x) (say (ApiError x) w4))
                         | OtherError x \<Rightarrow>
                             (Return False,
                              save_failed_url e url (''Transcript fetch error: '' @ x)
                                (say (FetchError x) w4)))))"

section \<open>The driver\<close>

text \<open>
  The loop of \<^verbatim>\<open>process_csv_urls\<close> over \<^verbatim>\<open>enumerate(pending_urls, 1)\<close>: \<open>n\<close> is
  \<^verbatim>\<open>len(pending_urls)\<close>, \<open>i\<close> the number of the record, and the pair counts the successes
  and the failures.
\<close>

fun process_loop ::
    "env \<Rightarrow> string \<Rightarrow> nat \<Rightarrow> url_record list \<Rightarrow> nat \<Rightarrow> nat \<times> nat \<Rightarrow> world
       \<Rightarrow> (nat \<times> nat) outcome \<times> world" where
  "process_loop e language n [] i (successful, failed) w = (Return (successful, failed), w)"
| "process_loop e language n ((video_id, url, description) # rest) i (successful, failed) w =
     (let (r, w1) = get_youtube_transcript e url video_id description language
                      (say (Processing i n description) w)
      in case r of
           SysExit c \<Rightarrow> (SysExit c, w1)
         | Raise x \<Rightarrow> (Raise x, w1)
         | Return ok \<Rightarrow>
             process_loop e language n rest (Suc i)
               (if ok then (Suc successful, failed) else (successful, Suc failed))
               (if i < n then act (Sleep 5) (say Pausing w1) else w1))"

definition pending_filter :: "string set \<Rightarrow> string set \<Rightarrow> url_record list \<Rightarrow> url_record list" where
  "pending_filter completed_urls failed_urls urls =
     filter (\<lambda>(video_id, url, description). url \<notin> completed_urls \<and> url \<notin> failed_urls) urls"

definition process_csv_urls :: "env \<Rightarrow> string \<Rightarrow> string \<Rightarrow> world \<Rightarrow> unit outcome \<times> world" where
  "process_csv_urls e csv_file language w =
     (let (r0, w0) = ensure_transcripts_folder e w
      in case r0 of
           SysExit c \<Rightarrow> (SysExit c, w0)
         | Raise x \<Rightarrow> (Return (), say (CannotProceed x) w0)
         | Return transcripts_dir \<Rightarrow>
             (let (urls, w1) = read_csv_urls e csv_file (say (WillSaveTo transcripts_dir) w0)
              in if urls = [] then (Return (), say NoUrls w1)
                 else
                   (let (completed_urls, w2) = load_completed_urls e w1;
                        (failed_urls, w3) = load_failed_urls e w2;
                        pending_urls = pending_filter completed_urls failed_urls urls
                    in if pending_urls = [] then (Return (), say AllProcessed w3)
                       else
                         (let w4 = say (Found (length pending_urls) (length urls)
                                          (card completed_urls) (card failed_urls)) w3;
                              (r, w5) = process_loop e language (length pending_urls)
                                          pending_urls 1 (0, 0) w4
                          in case r of
                               SysExit c \<Rightarrow> (SysExit c, w5)
                             | Raise x \<Rightarrow> (Raise x, w5)
                             | Return (successful, failed) \<Rightarrow>
                                 (Return (),
                                  say (Summary (length urls) (card completed_urls) (card failed_urls)
                                         (length pending_urls) successful failed) w5)))))"

text \<open>
  The loop of \<^verbatim>\<open>main\<close> over \<^verbatim>\<open>sys.argv\<close>: \<open>None\<close> when the help text is asked for, else
  the language.
\<close>

fun parse_args :: "string list \<Rightarrow> string \<Rightarrow> string option" where
  "parse_args [] language = Some language"
| "parse_args (arg # rest) language =
     (if arg = ''--language'' \<and> rest \<noteq> [] then parse_args rest (hd rest)
      else if arg = ''--help'' \<or> arg = ''-h'' then None
      else parse_args rest language)"

definition main :: "env \<Rightarrow> string list \<Rightarrow> world \<Rightarrow> unit outcome \<times> world" where
  "main e argv w =
     (case parse_args argv ''en'' of
        None \<Rightarrow> (SysExit 0, say Usage w)
      | Some language \<Rightarrow>
          (let (r, w1) = ensure_transcripts_folder e (say Start w)
           in case r of
                SysExit c \<Rightarrow> (SysExit c, w1)
              | Raise x \<Rightarrow> (SysExit 1, say (CannotCreate x) w1)
              | Return d \<Rightarrow> process_csv_urls e ''youtube_url.csv'' language w1))"

text \<open>The exit status of the process: 0 when \<^verbatim>\<open>main\<close> returns, 1 for an uncaught exception.\<close>

fun exit_code :: "unit outcome \<Rightarrow> nat" where
  "exit_code (Return u) = 0"
| "exit_code (Raise x) = 1"
| "exit_code (SysExit c) = c"

section \<open>Notions used in the statements\<close>

text \<open>
  The warnings of the CSV loader for the rows numbered from \<open>k\<close>: one for each row with
  fewer than two columns, with the number of the row.
\<close>

definition short_row_warnings :: "nat \<Rightarrow> string list list \<Rightarrow> event list" where
  "short_row_warnings k rows =
     [Print (RowInsufficient i row). (i, row) \<leftarrow> List.enumerate k rows, length row < 2]"

text \<open>
  A small setting for examples: a credential is set, there is no CSV file, the service
  answers every request with the same transcript, and no operation of the file system
  fails; nothing exists yet.
\<close>

definition sample_env :: env where
  "sample_env =
     \<lparr>api_key = Some ''secret'', csv_at = (\<lambda>path. CsvMissing),
      api = (\<lambda>key url language. Transcript ''Hello world.''),
      mkdir_err = (\<lambda>d. None), write_err = (\<lambda>path. None), append_err = (\<lambda>path. None),
      read_err = (\<lambda>path. None)\<rparr>"

definition empty_world :: world where
  "empty_world =
     \<lparr>completed_txt = None, failed_txt = None, transcripts = (\<lambda>path. None), dirs = {}, log = []\<rparr>"

definition csv_env :: "string list list \<Rightarrow> env" where
  "csv_env rows = sample_env\<lparr>csv_at := (\<lambda>path. CsvFile rows None)\<rparr>"

text \<open>
  The shapes of the three patterns, said of the rest of the string at a position: a text
  begins there, 11 ID characters stand there, and so on. \<open>param_here j t\<close> says that
  \<open>j\<close> characters without a newline are followed by \<open>v=\<close> and 11 ID characters;
  \<open>occurs P s\<close> that \<open>P\<close> holds at some position of \<open>s\<close>; \<open>contains lit s\<close> that the text
  \<open>lit\<close> stands somewhere in \<open>s\<close>.
\<close>

definition starts_with :: "string \<Rightarrow> string \<Rightarrow> bool" where
  "starts_with lit t = (take (length lit) t = lit)"

definition id_here :: "string \<Rightarrow> bool" where
  "id_here t = (11 \<le> length t \<and> list_all id_char (take 11 t))"

definition direct_here :: "string \<Rightarrow> bool" where
  "direct_here t =
     (\<exists>lit\<in>set direct_prefixes. starts_with lit t \<and> id_here (drop (length lit) t))"

definition param_here :: "nat \<Rightarrow> string \<Rightarrow> bool" where
  "param_here j t =
     (j \<le> length t \<and> LF \<notin> set (take j t) \<and> starts_with ''v='' (drop j t) \<and>
      id_here (drop (j + 2) t))"

definition tail_here :: "string \<Rightarrow> bool" where
  "tail_here u = (starts_with ''v='' u \<and> id_here (drop 2 u))"

fun param_after :: "string \<Rightarrow> bool" where
  "param_after [] = False"
| "param_after (c # cs) = (tail_here (c # cs) \<or> (c \<noteq> LF \<and> param_after cs))"

definition watch_here :: "string \<Rightarrow> bool" where
  "watch_here t = (starts_with ''youtube.com/watch?'' t \<and> param_after (drop 18 t))"

definition v_here :: "string \<Rightarrow> bool" where
  "v_here t = (starts_with ''youtube.com/v/'' t \<and> id_here (drop 14 t))"

fun occurs :: "(string \<Rightarrow> bool) \<Rightarrow> string \<Rightarrow> bool" where
  "occurs P [] = P []"
| "occurs P (c # cs) = (P (c # cs) \<or> occurs P cs)"

definition contains :: "string \<Rightarrow> string \<Rightarrow> bool" where
  "contains lit s = occurs (starts_with lit) s"

text \<open>
  Conditions of the surroundings: a credential that is set and not empty; an output
  directory that exists or can be made, under the first name or under the second. A text
  to which a line can be appended as a line of its own. Three more settings for examples:
  the service refuses every request; no credential is set; a description of two lines.
\<close>

definition key_present :: "env \<Rightarrow> bool" where
  "key_present e = (case api_key e of None \<Rightarrow> False | Some k \<Rightarrow> k \<noteq> [])"

definition folder_available :: "env \<Rightarrow> world \<Rightarrow> bool" where
  "folder_available e w =
     (''transcripts'' \<in> dirs w \<or> mkdir_err e ''transcripts'' = None \<or>
      ''transcripts_fallback'' \<in> dirs w \<or> mkdir_err e ''transcripts_fallback'' = None)"



definition no_key_env :: env where
  "no_key_env = sample_env\<lparr>api_key := None\<rparr>"


text \<open>
  What a run can be seen to do. The trace of a world keeps, of its log, the requests to the
  service, the pauses and the announcements of the fetcher (one for each record it works
  on); \<open>actions\<close> are the requests and the pauses, \<open>api_urls\<close> the URLs requested,
  \<open>announced\<close> the records announced. \<open>run_pending\<close> are the pending records of a run:
  the records of the CSV file whose URL is in neither ledger as loaded at the start.
  \<open>intersperse\<close> puts an element between every two elements of a list. The settings
  that follow are examples.
\<close>

fun intersperse :: "'a \<Rightarrow> 'a list \<Rightarrow> 'a list" where
  "intersperse a [] = []"
| "intersperse a [x] = [x]"
| "intersperse a (x # y # ys) = x # a # intersperse a (y # ys)"

fun is_banner :: "msg \<Rightarrow> bool" where
  "is_banner (Banner d u v l) = True"
| "is_banner m = False"

definition observed :: "event \<Rightarrow> bool" where
  "observed ev = (case ev of Print m \<Rightarrow> is_banner m | ApiCall k u l \<Rightarrow> True | Sleep n \<Rightarrow> True)"

definition trace :: "world \<Rightarrow> event list" where
  "trace w = filter observed (log w)"

definition is_action :: "event \<Rightarrow> bool" where
  "is_action ev = (case ev of Print m \<Rightarrow> False | ApiCall k u l \<Rightarrow> True | Sleep n \<Rightarrow> True)"

definition actions :: "world \<Rightarrow> event list" where
  "actions w = filter is_action (log w)"

definition api_urls :: "world \<Rightarrow> string list" where
  "api_urls w = concat (map (\<lambda>ev. case ev of ApiCall k u l \<Rightarrow> [u] | Print m \<Rightarrow> [] | Sleep n \<Rightarrow> []) (log w))"

definition announced :: "world \<Rightarrow> url_record list" where
  "announced w =
     concat (map (\<lambda>ev. case ev of
                          Print m \<Rightarrow> (case m of Banner d u v l \<Rightarrow> [(v, u, d)] | _ \<Rightarrow> [])
                        | ApiCall k u l \<Rightarrow> [] | Sleep n \<Rightarrow> []) (log w))"

definition run_pending :: "env \<Rightarrow> string \<Rightarrow> world \<Rightarrow> url_record list" where
  "run_pending e csv_file w =
     pending_filter (fst (load_completed_urls e w)) (fst (load_failed_urls e w))
       (fst (read_csv_urls e csv_file w))"

definition the_key :: "env \<Rightarrow> string" where
  "the_key e = (case api_key e of None \<Rightarrow> [] | Some k \<Rightarrow> k)"

text \<open>What the loop adds to the trace for the records from number \<open>i\<close> on, \<open>n\<close> in all.\<close>

fun loop_trace :: "string \<Rightarrow> string \<Rightarrow> nat \<Rightarrow> nat \<Rightarrow> url_record list \<Rightarrow> event list" where
  "loop_trace key lang n i [] = []"
| "loop_trace key lang n i ((v, u, d) # rest) =
     [Print (Banner d u v lang), ApiCall key u lang] @ (if i < n then [Sleep 5] else []) @
     loop_trace key lang n (Suc i) rest"

definition no_key_csv_env :: "string list list \<Rightarrow> env" where
  "no_key_csv_env rows = (csv_env rows)\<lparr>api_key := None\<rparr>"

definition two_row_env :: env where
  "two_row_env =
     csv_env [[''abc123DEFgh'', ''https://youtu.be/abc123DEFgh'', ''Intro video''],
              [''ABC123defGH'', ''https://youtu.be/ABC123defGH'']]"

definition one_done_world :: world where
  "one_done_world = empty_world\<lparr>completed_txt := Some (''https://youtu.be/abc123DEFgh'' @ [LF])\<rparr>"

definition no_key_two_row_env :: env where
  "no_key_two_row_env = two_row_env\<lparr>api_key := None\<rparr>"

definition twice_env :: env where
  "twice_env =
     csv_env [[''abc123DEFgh'', ''https://youtu.be/abc123DEFgh'', ''Intro video''],
              [''again'', ''https://youtu.be/abc123DEFgh'', ''Same video'']]"

definition no_key_twice_env :: env where
  "no_key_twice_env = twice_env\<lparr>api_key := None\<rparr>"

section \<open>Stripping\<close>

lemma strip_where_Nil_iff: "strip_where p s = [] \<longleftrightarrow> (\<forall>c\<in>set s. p c)"
proof -
  have "strip_where p s = [] \<longleftrightarrow> (\<forall>c\<in>set (dropWhile p s). p c)"
    by (simp add: strip_where_def dropWhile_eq_Nil_conv)
  also have "\<dots> \<longleftrightarrow> dropWhile p s = []"
  proof
    assume a: "\<forall>c\<in>set (dropWhile p s). p c"
    show "dropWhile p s = []"
    proof (rule ccontr)
      assume n: "dropWhile p s \<noteq> []"
      then have "\<not> p (hd (dropWhile p s))" by (rule hd_dropWhile)
      moreover have "hd (dropWhile p s) \<in> set (dropWhile p s)" using n by simp
      ultimately show False using a by blast
    qed
  next
    assume "dropWhile p s = []"
    then show "\<forall>c\<in>set (dropWhile p s). p c" by (simp del: dropWhile_eq_Nil_conv)
  qed
  also have "\<dots> \<longleftrightarrow> (\<forall>c\<in>set s. p c)"
    by (simp add: dropWhile_eq_Nil_conv)
  finally show ?thesis .
qed




section \<open>The CSV loader: rows to records\<close>

lemma short_row_warnings_Nil: "short_row_warnings k [] = []"
  by (simp add: short_row_warnings_def)

lemma short_row_warnings_Cons:
  "short_row_warnings k (row # rows) =
     (if length row < 2 then [Print (RowInsufficient k row)] else []) @ short_row_warnings (Suc k) rows"
  by (simp add: short_row_warnings_def)

lemma read_rows_eq:
  "read_rows k rows urls w =
     (urls @ map record_of_row (filter (\<lambda>row. 2 \<le> length row) rows),
      w\<lparr>log := log w @ short_row_warnings k rows\<rparr>)"
proof (induction rows arbitrary: k urls w)
  case Nil
  show ?case by (simp add: short_row_warnings_Nil)
next
  case (Cons row rows)
  show ?case
    by (simp add: Cons.IH short_row_warnings_Cons say_def not_le)
qed


lemma read_csv_urls_eq:
  "read_csv_urls e f w =
     (case csv_at e f of
        CsvMissing \<Rightarrow> ([], w\<lparr>log := log w @ [Print (CsvNotFound f)]\<rparr>)
      | CsvFile rows err \<Rightarrow>
          (map record_of_row (filter (\<lambda>row. 2 \<le> length row) rows),
           w\<lparr>log := log w @ short_row_warnings 1 rows @
                  [Print (case err of
                            None \<Rightarrow> LoadedCsv (length (filter (\<lambda>row. 2 \<le> length row) rows))
                          | Some x \<Rightarrow> CsvReadError x)]\<rparr>))"
  by (simp add: read_csv_urls_def read_rows_eq say_def split: csv_file.splits option.splits)



text \<open>
  Claim C4 as stated fails: the loader has no check that a field is not empty. A row whose
  first field is empty and whose second field is two double quotes gives a record with an
  empty video id and an empty URL.
\<close>

theorem loader_empty_fields_counterexample:
  "fst (read_csv_urls (csv_env [[[], [DQUOTE, DQUOTE], ''Intro video'']]) ''youtube_url.csv'' empty_world)
     = [([], [], ''Intro video'')]"
  by (simp add: read_csv_urls_def csv_env_def sample_env_def empty_world_def record_of_row_def
        strip_quotes_def strip_where_def)

text \<open>
  Claim C4, amended. The video id and the URL of every record of the loader are the first
  two fields of a row with at least two columns, with the double quotes at their ends
  removed; each of them is non-empty exactly when its field has a character other than the
  double quote.
\<close>

theorem loader_record_fields:
  assumes "(video_id, url, description) \<in> set (fst (read_csv_urls e f w))"
  shows "\<exists>rows err row. csv_at e f = CsvFile rows err \<and> row \<in> set rows \<and> 2 \<le> length row \<and>
           video_id = strip_quotes (row ! 0) \<and> url = strip_quotes (row ! 1) \<and>
           (video_id \<noteq> [] \<longleftrightarrow> (\<exists>c\<in>set (row ! 0). c \<noteq> DQUOTE)) \<and>
           (url \<noteq> [] \<longleftrightarrow> (\<exists>c\<in>set (row ! 1). c \<noteq> DQUOTE))"
proof (cases "csv_at e f")
  case CsvMissing
  with assms show ?thesis by (simp add: read_csv_urls_eq)
next
  case (CsvFile rows err)
  with assms obtain row where row: "row \<in> set rows" "2 \<le> length row"
      "(video_id, url, description) = record_of_row row"
    by (auto simp: read_csv_urls_eq)
  then have v: "video_id = strip_quotes (row ! 0)" and u: "url = strip_quotes (row ! 1)"
    by (simp_all add: record_of_row_def)
  have "(video_id \<noteq> [] \<longleftrightarrow> (\<exists>c\<in>set (row ! 0). c \<noteq> DQUOTE))"
    unfolding v strip_quotes_def by (simp add: strip_where_Nil_iff)
  moreover have "(url \<noteq> [] \<longleftrightarrow> (\<exists>c\<in>set (row ! 1). c \<noteq> DQUOTE))"
    unfolding u strip_quotes_def by (simp add: strip_where_Nil_iff)
  ultimately show ?thesis using CsvFile row(1,2) v u by blast
qed

theorem loader_record_fields_witness:
  "(''id2'', ''u2'', []) \<in> set (fst (read_csv_urls (csv_env [[''lonely''], [''id2'', ''u2'']]) ''youtube_url.csv'' empty_world))
   \<and> (\<exists>rows err row. csv_at (csv_env [[''lonely''], [''id2'', ''u2'']]) ''youtube_url.csv'' = CsvFile rows err \<and> row \<in> set rows \<and> 2 \<le> length row \<and>
           ''id2'' = strip_quotes (row ! 0) \<and> ''u2'' = strip_quotes (row ! 1) \<and>
           (''id2'' \<noteq> [] \<longleftrightarrow> (\<exists>c\<in>set (row ! 0). c \<noteq> DQUOTE)) \<and>
           (''u2'' \<noteq> [] \<longleftrightarrow> (\<exists>c\<in>set (row ! 1). c \<noteq> DQUOTE)))"
proof -
  have h: "(''id2'', ''u2'', []) \<in> set (fst (read_csv_urls (csv_env [[''lonely''], [''id2'', ''u2'']]) ''youtube_url.csv'' empty_world))"
    by (simp add: read_csv_urls_def csv_env_def sample_env_def empty_world_def record_of_row_def
        strip_quotes_def strip_where_def)
  show ?thesis using h loader_record_fields [OF h] by blast
qed

section \<open>The ledger loaders\<close>

lemma split_on_not_Nil: "split_on sep cur s \<noteq> []"
  by (induction s arbitrary: cur) auto

lemma collect_completed_eq:
  "collect_completed ls acc = acc \<union> {u. \<exists>l\<in>set ls. u = strip l \<and> u \<noteq> []}"
  by (induction ls arbitrary: acc) (auto simp: Let_def)

lemma collect_failed_eq:
  "collect_failed ls acc = acc \<union> {u. \<exists>l\<in>set ls. u = hd (split_tab (strip l)) \<and> u \<noteq> []}"
proof (induction ls arbitrary: acc)
  case Nil
  show ?case by simp
next
  case (Cons l ls)
  have "split_tab (strip l) ! 0 = hd (split_tab (strip l))"
    using split_on_not_Nil [of TAB "[]" "strip l"] by (simp add: split_tab_def hd_conv_nth)
  moreover have "split_tab (strip l) \<noteq> []"
    by (simp add: split_tab_def split_on_not_Nil)
  ultimately show ?case by (auto simp: Cons.IH Let_def)
qed

text \<open>
  Claim C5 as stated fails for the failed ledger: the loader strips the line before it
  splits it at the tabs. The line of a failure recorded for an empty URL begins with a tab,
  so its first tab-delimited field is empty; the loader takes the reason for the URL.
\<close>

theorem load_failed_strips_first_counterexample:
  "fst (load_failed_urls sample_env (empty_world\<lparr>failed_txt := Some (TAB # ''reason'' @ [LF])\<rparr>))
     = {''reason''}
   \<and> file_lines (TAB # ''reason'' @ [LF]) = [TAB # ''reason'' @ [LF]]
   \<and> split_tab (TAB # ''reason'' @ [LF]) = [[], ''reason'' @ [LF]]"
  by (simp add: load_failed_urls_def sample_env_def empty_world_def file_lines_def strip_def
        strip_where_def py_isspace_def split_tab_def Let_def)

text \<open>
  Claim C5, amended. When the ledger file is missing, each loader returns the empty set and
  does nothing else. When the file can be read, \<open>load_completed_urls\<close> returns the set of
  the stripped lines that are not empty, and \<open>load_failed_urls\<close> returns the set of the
  non-empty first tab-delimited fields of the stripped lines. When reading fails after \<open>n\<close>
  lines, the loaders return what these \<open>n\<close> lines give. No line stops the loading, and only
  the lines that are blank are skipped.
\<close>

theorem load_ledgers_sets:
  "(completed_txt w = None \<longrightarrow> load_completed_urls e w = ({}, w)) \<and>
   (failed_txt w = None \<longrightarrow> load_failed_urls e w = ({}, w)) \<and>
   (completed_txt w = Some txt \<longrightarrow>
      fst (load_completed_urls e w) =
        {u. \<exists>l\<in>set (case read_err e completed_file of
                          None \<Rightarrow> file_lines txt | Some (n, x) \<Rightarrow> take n (file_lines txt)).
              u = strip l \<and> u \<noteq> []}) \<and>
   (failed_txt w = Some txt' \<longrightarrow>
      fst (load_failed_urls e w) =
        {u. \<exists>l\<in>set (case read_err e failed_file of
                          None \<Rightarrow> file_lines txt' | Some (n, x) \<Rightarrow> take n (file_lines txt')).
              u = hd (split_tab (strip l)) \<and> u \<noteq> []})"
  by (auto simp: load_completed_urls_def load_failed_urls_def collect_completed_eq
        collect_failed_eq Let_def split: option.splits prod.splits)

theorem load_ledgers_sets_witness:
  "fst (load_completed_urls sample_env
          (empty_world\<lparr>completed_txt := Some (''u1'' @ [LF] @ ''  '' @ [CR, LF] @ '' u2 '')\<rparr>))
     = {''u1'', ''u2''} \<and>
   fst (load_failed_urls sample_env
          (empty_world\<lparr>failed_txt := Some (''u3'' @ [TAB] @ ''no captions'' @ [LF, LF] @ ''u4'' @ [LF])\<rparr>))
     = {''u3'', ''u4''} \<and>
   load_completed_urls sample_env empty_world = ({}, empty_world)"
  using load_ledgers_sets
    [of "empty_world\<lparr>completed_txt := Some (''u1'' @ [LF] @ ''  '' @ [CR, LF] @ '' u2 '')\<rparr>"
        sample_env "''u1'' @ [LF] @ ''  '' @ [CR, LF] @ '' u2 ''" "[]"]
    load_ledgers_sets
    [of "empty_world\<lparr>failed_txt := Some (''u3'' @ [TAB] @ ''no captions'' @ [LF, LF] @ ''u4'' @ [LF])\<rparr>"
        sample_env "[]" "''u3'' @ [TAB] @ ''no captions'' @ [LF, LF] @ ''u4'' @ [LF]"]
    load_ledgers_sets [of empty_world sample_env "[]" "[]"]
  by (auto simp: sample_env_def empty_world_def file_lines_def strip_def
        strip_where_def py_isspace_def split_tab_def Let_def)

section \<open>The video-ID extractor\<close>

lemma occurs_iff: "occurs P s \<longleftrightarrow> (\<exists>i\<le>length s. P (drop i s))"
proof (induction s)
  case Nil
  show ?case by simp
next
  case (Cons c cs)
  have "(\<exists>i\<le>length (c # cs). P (drop i (c # cs))) \<longleftrightarrow>
        P (c # cs) \<or> (\<exists>i\<le>length cs. P (drop i cs))"
  proof
    assume "\<exists>i\<le>length (c # cs). P (drop i (c # cs))"
    then obtain i where i: "i \<le> length (c # cs)" "P (drop i (c # cs))" by blast
    then show "P (c # cs) \<or> (\<exists>i\<le>length cs. P (drop i cs))" by (cases i) auto
  next
    assume "P (c # cs) \<or> (\<exists>i\<le>length cs. P (drop i cs))"
    then show "\<exists>i\<le>length (c # cs). P (drop i (c # cs))"
    proof
      assume "P (c # cs)"
      then have "0 \<le> length (c # cs) \<and> P (drop 0 (c # cs))" by simp
      then show ?thesis by blast
    next
      assume "\<exists>i\<le>length cs. P (drop i cs)"
      then obtain i where "i \<le> length cs" "P (drop i cs)" by blast
      then have "Suc i \<le> length (c # cs) \<and> P (drop (Suc i) (c # cs))" by simp
      then show ?thesis by blast
    qed
  qed
  with Cons.IH show ?case by simp
qed

lemma param_after_iff: "param_after t \<longleftrightarrow> (\<exists>j. param_here j t)"
proof (induction t)
  case Nil
  show ?case by (simp add: param_here_def starts_with_def)
next
  case (Cons c cs)
  have "(\<exists>j. param_here j (c # cs)) \<longleftrightarrow>
        tail_here (c # cs) \<or> (c \<noteq> LF \<and> (\<exists>j. param_here j cs))"
  proof
    assume "\<exists>j. param_here j (c # cs)"
    then obtain j where j: "param_here j (c # cs)" by blast
    show "tail_here (c # cs) \<or> (c \<noteq> LF \<and> (\<exists>j. param_here j cs))"
    proof (cases j)
      case 0
      with j show ?thesis by (simp add: param_here_def tail_here_def)
    next
      case (Suc j')
      with j have "c \<noteq> LF \<and> param_here j' cs" by (auto simp: param_here_def)
      then show ?thesis by blast
    qed
  next
    assume "tail_here (c # cs) \<or> (c \<noteq> LF \<and> (\<exists>j. param_here j cs))"
    then show "\<exists>j. param_here j (c # cs)"
    proof
      assume "tail_here (c # cs)"
      then have "param_here 0 (c # cs)" by (simp add: param_here_def tail_here_def)
      then show ?thesis by blast
    next
      assume "c \<noteq> LF \<and> (\<exists>j. param_here j cs)"
      then obtain j where "c \<noteq> LF" "param_here j cs" by blast
      then have "param_here (Suc j) (c # cs)" by (auto simp: param_here_def)
      then show ?thesis by blast
    qed
  qed
  with Cons.IH show ?case by simp
qed

lemma match_id_Some: "match_id t = Some v \<longleftrightarrow> id_here t \<and> v = take 11 t"
  by (auto simp: match_id_def id_here_def)

lemma match_id_None: "match_id t = None \<longleftrightarrow> \<not> id_here t"
  by (simp add: match_id_def id_here_def)

lemma match_lit_Some:
  "match_lit lit k t = Some v \<longleftrightarrow> starts_with lit t \<and> k (drop (length lit) t) = Some v"
  by (simp add: match_lit_def starts_with_def)

lemma match_lit_None:
  "match_lit lit k t = None \<longleftrightarrow> \<not> starts_with lit t \<or> k (drop (length lit) t) = None"
  by (simp add: match_lit_def starts_with_def)

lemma match_alt_None: "match_alt ms t = None \<longleftrightarrow> (\<forall>m\<in>set ms. m t = None)"
  by (induction ms) (auto split: option.splits)

lemma match_alt_Some: "match_alt ms t = Some v \<Longrightarrow> \<exists>m\<in>set ms. m t = Some v"
  by (induction ms) (auto split: option.splits)

lemma re_search_None: "re_search m s = None \<longleftrightarrow> (\<forall>i\<le>length s. m (drop i s) = None)"
proof (induction s)
  case Nil
  show ?case by simp
next
  case (Cons c cs)
  have "(\<forall>i\<le>length (c # cs). m (drop i (c # cs)) = None) \<longleftrightarrow>
        m (c # cs) = None \<and> (\<forall>i\<le>length cs. m (drop i cs) = None)"
  proof
    assume a: "\<forall>i\<le>length (c # cs). m (drop i (c # cs)) = None"
    have "m (drop 0 (c # cs)) = None" using a by blast
    moreover have "\<forall>i\<le>length cs. m (drop i cs) = None"
    proof (intro allI impI)
      fix i assume "i \<le> length cs"
      then have "m (drop (Suc i) (c # cs)) = None" using a by (metis Suc_le_mono length_Cons)
      then show "m (drop i cs) = None" by simp
    qed
    ultimately show "m (c # cs) = None \<and> (\<forall>i\<le>length cs. m (drop i cs) = None)" by simp
  next
    assume b: "m (c # cs) = None \<and> (\<forall>i\<le>length cs. m (drop i cs) = None)"
    show "\<forall>i\<le>length (c # cs). m (drop i (c # cs)) = None"
    proof (intro allI impI)
      fix i assume "i \<le> length (c # cs)"
      then show "m (drop i (c # cs)) = None" using b by (cases i) auto
    qed
  qed
  then show ?case using Cons.IH by (simp split: option.splits)
qed

lemma re_search_Some:
  "re_search m s = Some v \<Longrightarrow>
     \<exists>i\<le>length s. m (drop i s) = Some v \<and> (\<forall>i'<i. m (drop i' s) = None)"
proof (induction s)
  case Nil
  then show ?case by simp
next
  case (Cons c cs)
  show ?case
  proof (cases "m (c # cs)")
    case (Some u)
    with Cons.prems have "m (drop 0 (c # cs)) = Some v" by simp
    then show ?thesis by blast
  next
    case None
    with Cons.prems have "re_search m cs = Some v" by simp
    with Cons.IH obtain i where i: "i \<le> length cs" "m (drop i cs) = Some v"
        "\<forall>i'<i. m (drop i' cs) = None" by blast
    have "\<forall>i'<Suc i. m (drop i' (c # cs)) = None"
    proof (intro allI impI)
      fix i' assume "i' < Suc i"
      then show "m (drop i' (c # cs)) = None" using None i(3) by (cases i') auto
    qed
    moreover have "Suc i \<le> length (c # cs)" "m (drop (Suc i) (c # cs)) = Some v"
      using i by simp_all
    ultimately show ?thesis by blast
  qed
qed

lemma dot_star_None:
  "dot_star k t = None \<longleftrightarrow> (\<forall>j\<le>length t. LF \<notin> set (take j t) \<longrightarrow> k (drop j t) = None)"
proof (induction t)
  case Nil
  show ?case by simp
next
  case (Cons c cs)
  show ?case
  proof (cases "c = LF")
    case True
    have "(\<forall>j\<le>length (c # cs). LF \<notin> set (take j (c # cs)) \<longrightarrow> k (drop j (c # cs)) = None)
          \<longleftrightarrow> k (c # cs) = None"
    proof
      assume a: "\<forall>j\<le>length (c # cs). LF \<notin> set (take j (c # cs)) \<longrightarrow> k (drop j (c # cs)) = None"
      have "LF \<notin> set (take 0 (c # cs))" by simp
      with a have "k (drop 0 (c # cs)) = None" by blast
      then show "k (c # cs) = None" by simp
    next
      assume b: "k (c # cs) = None"
      show "\<forall>j\<le>length (c # cs). LF \<notin> set (take j (c # cs)) \<longrightarrow> k (drop j (c # cs)) = None"
      proof (intro allI impI)
        fix j assume "j \<le> length (c # cs)" "LF \<notin> set (take j (c # cs))"
        then show "k (drop j (c # cs)) = None" using b True by (cases j) auto
      qed
    qed
    with True show ?thesis by simp
  next
    case False
    have "(\<forall>j\<le>length (c # cs). LF \<notin> set (take j (c # cs)) \<longrightarrow> k (drop j (c # cs)) = None)
          \<longleftrightarrow> k (c # cs) = None \<and> (\<forall>j\<le>length cs. LF \<notin> set (take j cs) \<longrightarrow> k (drop j cs) = None)"
    proof
      assume a: "\<forall>j\<le>length (c # cs). LF \<notin> set (take j (c # cs)) \<longrightarrow> k (drop j (c # cs)) = None"
      have "LF \<notin> set (take 0 (c # cs))" by simp
      with a have "k (drop 0 (c # cs)) = None" by blast
      moreover have "\<forall>j\<le>length cs. LF \<notin> set (take j cs) \<longrightarrow> k (drop j cs) = None"
      proof (intro allI impI)
        fix j assume "j \<le> length cs" "LF \<notin> set (take j cs)"
        then have "Suc j \<le> length (c # cs)" "LF \<notin> set (take (Suc j) (c # cs))"
          using False by auto
        with a have "k (drop (Suc j) (c # cs)) = None" by blast
        then show "k (drop j cs) = None" by simp
      qed
      ultimately show "k (c # cs) = None \<and> (\<forall>j\<le>length cs. LF \<notin> set (take j cs) \<longrightarrow> k (drop j cs) = None)"
        by simp
    next
      assume b: "k (c # cs) = None \<and> (\<forall>j\<le>length cs. LF \<notin> set (take j cs) \<longrightarrow> k (drop j cs) = None)"
      show "\<forall>j\<le>length (c # cs). LF \<notin> set (take j (c # cs)) \<longrightarrow> k (drop j (c # cs)) = None"
      proof (intro allI impI)
        fix j assume "j \<le> length (c # cs)" "LF \<notin> set (take j (c # cs))"
        then show "k (drop j (c # cs)) = None" using b by (cases j) auto
      qed
    qed
    moreover have "dot_star k (c # cs) = None \<longleftrightarrow> dot_star k cs = None \<and> k (c # cs) = None"
      using False by (simp split: option.splits)
    ultimately show ?thesis using Cons.IH by blast
  qed
qed

lemma dot_star_Some:
  "dot_star k t = Some v \<Longrightarrow>
     \<exists>j\<le>length t. LF \<notin> set (take j t) \<and> k (drop j t) = Some v \<and>
        (\<forall>j'\<le>length t. j < j' \<and> LF \<notin> set (take j' t) \<longrightarrow> k (drop j' t) = None)"
proof (induction t)
  case Nil
  then show ?case by simp
next
  case (Cons c cs)
  show ?case
  proof (cases "c = LF \<or> dot_star k cs = None")
    case True
    with Cons.prems have here: "k (c # cs) = Some v" by (auto split: if_splits)
    have "\<forall>j'\<le>length (c # cs). 0 < j' \<and> LF \<notin> set (take j' (c # cs)) \<longrightarrow> k (drop j' (c # cs)) = None"
    proof (intro allI impI)
      fix j' assume le: "j' \<le> length (c # cs)" and h: "0 < j' \<and> LF \<notin> set (take j' (c # cs))"
      then obtain j where j: "j' = Suc j" by (cases j') auto
      with h have nl: "c \<noteq> LF" "LF \<notin> set (take j cs)" by auto
      with True have "dot_star k cs = None" by simp
      then have "k (drop j cs) = None" using dot_star_None [of k cs] le j nl by simp
      then show "k (drop j' (c # cs)) = None" using j by simp
    qed
    moreover have "0 \<le> length (c # cs)" "LF \<notin> set (take 0 (c # cs))" "k (drop 0 (c # cs)) = Some v"
      using here by simp_all
    ultimately show ?thesis by blast
  next
    case False
    then have nl: "c \<noteq> LF" and "dot_star k cs \<noteq> None" by simp_all
    with Cons.prems have "dot_star k cs = Some v" by (auto split: option.splits)
    with Cons.IH obtain j where j: "j \<le> length cs" "LF \<notin> set (take j cs)" "k (drop j cs) = Some v"
        "\<forall>j'\<le>length cs. j < j' \<and> LF \<notin> set (take j' cs) \<longrightarrow> k (drop j' cs) = None" by blast
    have "\<forall>j'\<le>length (c # cs). Suc j < j' \<and> LF \<notin> set (take j' (c # cs)) \<longrightarrow> k (drop j' (c # cs)) = None"
    proof (intro allI impI)
      fix j' assume le: "j' \<le> length (c # cs)" and h: "Suc j < j' \<and> LF \<notin> set (take j' (c # cs))"
      then obtain i where i: "j' = Suc i" by (cases j') auto
      with h le have "i \<le> length cs" "j < i" "LF \<notin> set (take i cs)" by auto
      with j(4) have "k (drop i cs) = None" by blast
      then show "k (drop j' (c # cs)) = None" using i by simp
    qed
    moreover have "Suc j \<le> length (c # cs)" "LF \<notin> set (take (Suc j) (c # cs))"
        "k (drop (Suc j) (c # cs)) = Some v" using j nl by auto
    ultimately show ?thesis by blast
  qed
qed

lemma length_watch: "length ''youtube.com/watch?'' = 18"
  by simp

lemma length_v: "length ''youtube.com/v/'' = 14"
  by simp

lemma pattern2_unfold:
  "pattern2 t =
     (if starts_with ''youtube.com/watch?'' t
      then dot_star (match_lit ''v='' match_id) (drop 18 t) else None)"
  by (simp only: pattern2_def match_lit_def starts_with_def length_watch)

lemma pattern3_unfold:
  "pattern3 t = (if starts_with ''youtube.com/v/'' t then match_id (drop 14 t) else None)"
  by (simp only: pattern3_def match_lit_def starts_with_def length_v)

lemma pattern1_None: "pattern1 t = None \<longleftrightarrow> \<not> direct_here t"
  by (auto simp: pattern1_def match_alt_None match_lit_None match_id_None direct_here_def)

lemma pattern1_Some:
  assumes "pattern1 t = Some v"
  shows "\<exists>lit\<in>set direct_prefixes. starts_with lit t \<and> v = take 11 (drop (length lit) t)"
proof -
  from assms obtain m where "m \<in> set (map (\<lambda>lit. match_lit lit match_id) direct_prefixes)"
      "m t = Some v"
    unfolding pattern1_def by (blast dest: match_alt_Some)
  then obtain lit where "lit \<in> set direct_prefixes" "match_lit lit match_id t = Some v" by auto
  then show ?thesis by (auto simp: match_lit_Some match_id_Some)
qed

lemma watch_tail:
  "match_lit ''v='' match_id (drop j t) = Some v \<longleftrightarrow>
     starts_with ''v='' (drop j t) \<and> id_here (drop (j + 2) t) \<and> v = take 11 (drop (j + 2) t)"
  by (auto simp: match_lit_Some match_id_Some add.commute)

lemma watch_tail_None:
  "match_lit ''v='' match_id (drop j t) = None \<longleftrightarrow>
     \<not> (starts_with ''v='' (drop j t) \<and> id_here (drop (j + 2) t))"
  by (auto simp: match_lit_None match_id_None add.commute)

lemma pattern2_None: "pattern2 t = None \<longleftrightarrow> \<not> watch_here t"
proof -
  have "dot_star (match_lit ''v='' match_id) (drop 18 t) = None \<longleftrightarrow>
          \<not> (\<exists>j. param_here j (drop 18 t))"
    unfolding dot_star_None watch_tail_None param_here_def by auto
  then show ?thesis
    by (simp add: pattern2_unfold watch_here_def param_after_iff)
qed

lemma pattern2_Some:
  assumes "pattern2 t = Some v"
  shows "starts_with ''youtube.com/watch?'' t \<and>
         (\<exists>j. param_here j (drop 18 t) \<and> v = take 11 (drop (j + 2) (drop 18 t)) \<and>
              (\<forall>j'>j. \<not> param_here j' (drop 18 t)))"
proof -
  let ?t = "drop 18 t"
  from assms have s: "starts_with ''youtube.com/watch?'' t"
    and d: "dot_star (match_lit ''v='' match_id) ?t = Some v"
    by (simp_all add: pattern2_unfold split: if_splits)
  from dot_star_Some [OF d] obtain j where j: "j \<le> length ?t" "LF \<notin> set (take j ?t)"
      "match_lit ''v='' match_id (drop j ?t) = Some v"
      "\<forall>j'\<le>length ?t. j < j' \<and> LF \<notin> set (take j' ?t) \<longrightarrow>
          match_lit ''v='' match_id (drop j' ?t) = None"
    by blast
  from j(1,2,3) have "param_here j ?t" "v = take 11 (drop (j + 2) ?t)"
    unfolding watch_tail param_here_def by simp_all
  moreover have "\<forall>j'>j. \<not> param_here j' ?t"
    using j(4) unfolding watch_tail_None param_here_def by blast
  ultimately show ?thesis using s by blast
qed

lemma pattern3_None: "pattern3 t = None \<longleftrightarrow> \<not> v_here t"
  by (simp add: pattern3_unfold match_id_None v_here_def)

lemma pattern3_Some: "pattern3 t = Some v \<longleftrightarrow> v_here t \<and> v = take 11 (drop 14 t)"
  by (auto simp: pattern3_unfold match_id_Some v_here_def split: if_splits)

lemma re_search_occurs:
  assumes "\<And>t. m t = None \<longleftrightarrow> \<not> P t"
  shows "re_search m s = None \<longleftrightarrow> \<not> occurs P s"
  by (auto simp: re_search_None occurs_iff assms)

lemma search1_id:
  assumes "re_search pattern1 s = Some v"
  shows "\<exists>i lit. i \<le> length s \<and> lit \<in> set direct_prefixes \<and> starts_with lit (drop i s) \<and>
           v = take 11 (drop (i + length lit) s) \<and> (\<forall>i'<i. \<not> direct_here (drop i' s))"
proof -
  from re_search_Some [OF assms] obtain i where i: "i \<le> length s" "pattern1 (drop i s) = Some v"
      "\<forall>i'<i. pattern1 (drop i' s) = None" by blast
  from pattern1_Some [OF i(2)] obtain lit where "lit \<in> set direct_prefixes"
      "starts_with lit (drop i s)" "v = take 11 (drop (length lit) (drop i s))" by blast
  then show ?thesis using i(1,3) by (auto simp: pattern1_None add.commute)
qed

lemma search2_id:
  assumes "re_search pattern2 s = Some v"
  shows "\<exists>i j. i \<le> length s \<and> starts_with ''youtube.com/watch?'' (drop i s) \<and>
           param_here j (drop (i + 18) s) \<and> v = take 11 (drop (i + 18 + j + 2) s) \<and>
           (\<forall>i'<i. \<not> watch_here (drop i' s)) \<and> (\<forall>j'>j. \<not> param_here j' (drop (i + 18) s))"
proof -
  from re_search_Some [OF assms] obtain i where i: "i \<le> length s" "pattern2 (drop i s) = Some v"
      "\<forall>i'<i. pattern2 (drop i' s) = None" by blast
  from pattern2_Some [OF i(2)] obtain j where j: "starts_with ''youtube.com/watch?'' (drop i s)"
      "param_here j (drop 18 (drop i s))" "v = take 11 (drop (j + 2) (drop 18 (drop i s)))"
      "\<forall>j'>j. \<not> param_here j' (drop 18 (drop i s))" by blast
  have e: "drop 18 (drop i s) = drop (i + 18) s" by (simp add: add.commute)
  have "v = take 11 (drop (i + 18 + j + 2) s)" using j(3) by (simp add: add.commute add.left_commute)
  then show ?thesis using i(1,3) j(1,2,4) unfolding e pattern2_None by blast
qed

lemma search3_id:
  assumes "re_search pattern3 s = Some v"
  shows "\<exists>i. i \<le> length s \<and> v_here (drop i s) \<and> v = take 11 (drop (i + 14) s) \<and>
           (\<forall>i'<i. \<not> v_here (drop i' s))"
proof -
  from re_search_Some [OF assms] obtain i where i: "i \<le> length s" "pattern3 (drop i s) = Some v"
      "\<forall>i'<i. pattern3 (drop i' s) = None" by blast
  then show ?thesis unfolding pattern3_Some pattern3_None by (auto simp: add.commute)
qed

lemma search_id_shape:
  assumes "re_search p s = Some v" "p = pattern1 \<or> p = pattern2 \<or> p = pattern3"
  shows "length v = 11 \<and> list_all id_char v"
proof -
  from re_search_Some [OF assms(1)] obtain i where i: "p (drop i s) = Some v" by blast
  from assms(2) consider "p = pattern1" | "p = pattern2" | "p = pattern3" by blast
  then show ?thesis
  proof cases
    case 1
    with i obtain m where "m \<in> set (map (\<lambda>lit. match_lit lit match_id) direct_prefixes)"
      "m (drop i s) = Some v"
      unfolding pattern1_def by (blast dest: match_alt_Some)
    then show ?thesis by (auto simp: match_lit_Some match_id_Some id_here_def)
  next
    case 2
    with i have "dot_star (match_lit ''v='' match_id) (drop 18 (drop i s)) = Some v"
      by (simp add: pattern2_unfold split: if_splits)
    from dot_star_Some [OF this] show ?thesis
      by (auto simp: match_lit_Some match_id_Some id_here_def)
  next
    case 3
    with i show ?thesis by (auto simp: pattern3_Some v_here_def id_here_def)
  qed
qed

lemma extract_video_id_order:
  "extract_video_id s =
     (if occurs direct_here s then re_search pattern1 s
      else if occurs watch_here s then re_search pattern2 s
      else re_search pattern3 s)"
proof -
  have 1: "re_search pattern1 s = None \<longleftrightarrow> \<not> occurs direct_here s"
    by (rule re_search_occurs) (rule pattern1_None)
  have 2: "re_search pattern2 s = None \<longleftrightarrow> \<not> occurs watch_here s"
    by (rule re_search_occurs) (rule pattern2_None)
  show ?thesis using 1 2 by (auto simp: extract_video_id_def split: option.splits)
qed

text \<open>
  Claim C9 as stated fails: the second pattern asks for \<open>v=\<close> anywhere after
  \<open>youtube.com/watch?\<close> on the same line, not for \<open>&v=\<close>. The string below holds none of
  the five shapes that the claim lists, and the extractor still returns an ID, taken from
  the parameter \<open>nv\<close>.
\<close>

theorem extract_video_id_unlisted_shape_counterexample:
  "extract_video_id ''https://www.youtube.com/watch?list=PL1&nv=abcdefghijk'' = Some ''abcdefghijk''
   \<and> \<not> contains ''watch?v='' ''https://www.youtube.com/watch?list=PL1&nv=abcdefghijk''
   \<and> \<not> contains ''youtu.be/'' ''https://www.youtube.com/watch?list=PL1&nv=abcdefghijk''
   \<and> \<not> contains ''embed/'' ''https://www.youtube.com/watch?list=PL1&nv=abcdefghijk''
   \<and> \<not> contains ''v/'' ''https://www.youtube.com/watch?list=PL1&nv=abcdefghijk''
   \<and> \<not> contains ''&v='' ''https://www.youtube.com/watch?list=PL1&nv=abcdefghijk''"
  by code_simp

text \<open>
  Claim C9, amended. The shapes are those of the three patterns of the code:
  \<^item> \<open>direct_here\<close>: \<open>youtube.com/watch?v=\<close>, \<open>youtu.be/\<close> or \<open>youtube.com/embed/\<close>, then 11
    ID characters;
  \<^item> \<open>watch_here\<close>: \<open>youtube.com/watch?\<close>, then any characters other than a newline, then
    \<open>v=\<close> and 11 ID characters;
  \<^item> \<open>v_here\<close>: \<open>youtube.com/v/\<close>, then 11 ID characters.
  The extractor reports not found exactly when none of the shapes occurs in the string.
  What it returns has 11 characters, all of them ID characters. The patterns are tried in
  this order and the first that occurs decides. Each search returns the 11 characters that
  follow the marker at the leftmost place where its shape occurs; for the second pattern
  they follow the last \<open>v=\<close> on the line that has 11 ID characters after it.
\<close>

theorem extract_video_id_shapes:
  "(occurs P s \<longleftrightarrow> (\<exists>i\<le>length s. P (drop i s))) \<and>
   (watch_here t \<longleftrightarrow> starts_with ''youtube.com/watch?'' t \<and> (\<exists>j. param_here j (drop 18 t))) \<and>
   (extract_video_id s = None \<longleftrightarrow>
      \<not> occurs direct_here s \<and> \<not> occurs watch_here s \<and> \<not> occurs v_here s) \<and>
   (\<forall>v. extract_video_id s = Some v \<longrightarrow> length v = 11 \<and> list_all id_char v) \<and>
   extract_video_id s =
     (if occurs direct_here s then re_search pattern1 s
      else if occurs watch_here s then re_search pattern2 s
      else re_search pattern3 s) \<and>
   (\<forall>v. re_search pattern1 s = Some v \<longrightarrow>
      (\<exists>i lit. i \<le> length s \<and> lit \<in> set direct_prefixes \<and> starts_with lit (drop i s) \<and>
          v = take 11 (drop (i + length lit) s) \<and> (\<forall>i'<i. \<not> direct_here (drop i' s)))) \<and>
   (\<forall>v. re_search pattern2 s = Some v \<longrightarrow>
      (\<exists>i j. i \<le> length s \<and> starts_with ''youtube.com/watch?'' (drop i s) \<and>
          param_here j (drop (i + 18) s) \<and> v = take 11 (drop (i + 18 + j + 2) s) \<and>
          (\<forall>i'<i. \<not> watch_here (drop i' s)) \<and>
          (\<forall>j'>j. \<not> param_here j' (drop (i + 18) s)))) \<and>
   (\<forall>v. re_search pattern3 s = Some v \<longrightarrow>
      (\<exists>i. i \<le> length s \<and> v_here (drop i s) \<and> v = take 11 (drop (i + 14) s) \<and>
          (\<forall>i'<i. \<not> v_here (drop i' s))))"
proof -
  have n1: "re_search pattern1 s = None \<longleftrightarrow> \<not> occurs direct_here s"
    by (rule re_search_occurs) (rule pattern1_None)
  have n2: "re_search pattern2 s = None \<longleftrightarrow> \<not> occurs watch_here s"
    by (rule re_search_occurs) (rule pattern2_None)
  have n3: "re_search pattern3 s = None \<longleftrightarrow> \<not> occurs v_here s"
    by (rule re_search_occurs) (rule pattern3_None)
  have a: "extract_video_id s = None \<longleftrightarrow>
      \<not> occurs direct_here s \<and> \<not> occurs watch_here s \<and> \<not> occurs v_here s"
    using n1 n2 n3 by (auto simp: extract_video_id_def split: option.splits)
  have b: "\<forall>v. extract_video_id s = Some v \<longrightarrow> length v = 11 \<and> list_all id_char v"
  proof (intro allI impI)
    fix v assume "extract_video_id s = Some v"
    then have "re_search pattern1 s = Some v \<or> re_search pattern2 s = Some v \<or>
               re_search pattern3 s = Some v"
      by (auto simp: extract_video_id_def split: option.splits)
    then show "length v = 11 \<and> list_all id_char v"
      using search_id_shape [of _ s v] by blast
  qed
  have c: "watch_here t \<longleftrightarrow>
      starts_with ''youtube.com/watch?'' t \<and> (\<exists>j. param_here j (drop 18 t))"
    by (simp add: watch_here_def param_after_iff)
  have d: "\<forall>v. re_search pattern1 s = Some v \<longrightarrow>
      (\<exists>i lit. i \<le> length s \<and> lit \<in> set direct_prefixes \<and> starts_with lit (drop i s) \<and>
          v = take 11 (drop (i + length lit) s) \<and> (\<forall>i'<i. \<not> direct_here (drop i' s)))"
    using search1_id [of s] by blast
  have e: "\<forall>v. re_search pattern2 s = Some v \<longrightarrow>
      (\<exists>i j. i \<le> length s \<and> starts_with ''youtube.com/watch?'' (drop i s) \<and>
          param_here j (drop (i + 18) s) \<and> v = take 11 (drop (i + 18 + j + 2) s) \<and>
          (\<forall>i'<i. \<not> watch_here (drop i' s)) \<and>
          (\<forall>j'>j. \<not> param_here j' (drop (i + 18) s)))"
    using search2_id [of s] by blast
  have f: "\<forall>v. re_search pattern3 s = Some v \<longrightarrow>
      (\<exists>i. i \<le> length s \<and> v_here (drop i s) \<and> v = take 11 (drop (i + 14) s) \<and>
          (\<forall>i'<i. \<not> v_here (drop i' s)))"
    using search3_id [of s] by blast
  show ?thesis
    by (intro conjI occurs_iff c a b extract_video_id_order d e f)
qed

theorem extract_video_id_shapes_witness:
  "extract_video_id ''https://youtu.be/abc123DEFgh'' = Some ''abc123DEFgh''
   \<and> length ''abc123DEFgh'' = 11 \<and> list_all id_char ''abc123DEFgh''
   \<and> extract_video_id ''https://www.youtube.com/watch?t=5&v=abc123DEFgh&v=ABC123defGH''
       = re_search pattern2 ''https://www.youtube.com/watch?t=5&v=abc123DEFgh&v=ABC123defGH''
   \<and> re_search pattern2 ''https://www.youtube.com/watch?t=5&v=abc123DEFgh&v=ABC123defGH''
       = Some ''ABC123defGH''
   \<and> extract_video_id ''https://example.com/embed/abc123DEFgh'' = None"
proof -
  have h1: "extract_video_id ''https://youtu.be/abc123DEFgh'' = Some ''abc123DEFgh''"
    by code_simp
  have l1: "length ''abc123DEFgh'' = 11 \<and> list_all id_char ''abc123DEFgh''"
    using h1 extract_video_id_shapes [of _ "''https://youtu.be/abc123DEFgh''",
      THEN conjunct2, THEN conjunct2, THEN conjunct2, THEN conjunct1]
    by blast
  have d2: "\<not> occurs direct_here ''https://www.youtube.com/watch?t=5&v=abc123DEFgh&v=ABC123defGH''"
    by code_simp
  have w2: "occurs watch_here ''https://www.youtube.com/watch?t=5&v=abc123DEFgh&v=ABC123defGH''"
    by code_simp
  have o2: "extract_video_id ''https://www.youtube.com/watch?t=5&v=abc123DEFgh&v=ABC123defGH''
       = re_search pattern2 ''https://www.youtube.com/watch?t=5&v=abc123DEFgh&v=ABC123defGH''"
    using d2 w2 extract_video_id_shapes
      [of _ "''https://www.youtube.com/watch?t=5&v=abc123DEFgh&v=ABC123defGH''",
       THEN conjunct2, THEN conjunct2, THEN conjunct2, THEN conjunct2, THEN conjunct1]
    by (simp only: if_True if_False)
  have r2: "re_search pattern2 ''https://www.youtube.com/watch?t=5&v=abc123DEFgh&v=ABC123defGH''
       = Some ''ABC123defGH''"
    by code_simp
  have d3: "\<not> occurs direct_here ''https://example.com/embed/abc123DEFgh''" by code_simp
  have w3: "\<not> occurs watch_here ''https://example.com/embed/abc123DEFgh''" by code_simp
  have v3: "\<not> occurs v_here ''https://example.com/embed/abc123DEFgh''" by code_simp
  have n3: "extract_video_id ''https://example.com/embed/abc123DEFgh'' = None"
    using d3 w3 v3 extract_video_id_shapes [of _ "''https://example.com/embed/abc123DEFgh''",
      THEN conjunct2, THEN conjunct2, THEN conjunct1]
    by blast
  show ?thesis by (intro conjI h1 l1 [THEN conjunct1] l1 [THEN conjunct2] o2 r2 n3)
qed

section \<open>The transcript fetcher\<close>

lemma say_fields [simp]:
  "completed_txt (say m w) = completed_txt w" "failed_txt (say m w) = failed_txt w"
  "transcripts (say m w) = transcripts w" "dirs (say m w) = dirs w"
  "log (say m w) = log w @ [Print m]"
  by (simp_all add: say_def)

lemma act_fields [simp]:
  "completed_txt (act a w) = completed_txt w" "failed_txt (act a w) = failed_txt w"
  "transcripts (act a w) = transcripts w" "dirs (act a w) = dirs w"
  "log (act a w) = log w @ [a]"
  by (simp_all add: act_def)

lemma save_completed_fields:
  "failed_txt (save_completed_url e url w) = failed_txt w"
  "transcripts (save_completed_url e url w) = transcripts w"
  "dirs (save_completed_url e url w) = dirs w"
  "completed_txt (save_completed_url e url w) =
     (case append_err e completed_file of
        None \<Rightarrow> Some (file_text (completed_txt w) @ url @ [LF])
      | Some x \<Rightarrow> completed_txt w)"
  "log (save_completed_url e url w) =
     log w @ [Print (case append_err e completed_file of
                       None \<Rightarrow> SavedCompleted url | Some x \<Rightarrow> WarnSaveCompleted x)]"
  by (simp_all add: save_completed_url_def split: option.splits)

lemma save_failed_fields:
  "completed_txt (save_failed_url e url reason w) = completed_txt w"
  "transcripts (save_failed_url e url reason w) = transcripts w"
  "dirs (save_failed_url e url reason w) = dirs w"
  "failed_txt (save_failed_url e url reason w) =
     (case append_err e failed_file of
        None \<Rightarrow> Some (file_text (failed_txt w) @ url @ [TAB] @ reason @ [LF])
      | Some x \<Rightarrow> failed_txt w)"
  "log (save_failed_url e url reason w) =
     log w @ [Print (case append_err e failed_file of
                       None \<Rightarrow> SavedFailed url reason | Some x \<Rightarrow> WarnSaveFailed x)]"
  by (simp_all add: save_failed_url_def split: option.splits)

lemma ensure_fields:
  "completed_txt (snd (ensure_transcripts_folder e w)) = completed_txt w"
  "failed_txt (snd (ensure_transcripts_folder e w)) = failed_txt w"
  "transcripts (snd (ensure_transcripts_folder e w)) = transcripts w"
  "dirs w \<subseteq> dirs (snd (ensure_transcripts_folder e w))"
  by (auto simp: ensure_transcripts_folder_def makedirs_def Let_def split: option.splits)

lemma ensure_outcome:
  "fst (ensure_transcripts_folder e w) =
     (if ''transcripts'' \<in> dirs w \<or> mkdir_err e ''transcripts'' = None then Return ''transcripts''
      else if ''transcripts_fallback'' \<in> dirs w \<or> mkdir_err e ''transcripts_fallback'' = None
           then Return ''transcripts_fallback''
      else Raise (the (mkdir_err e ''transcripts_fallback'')))"
  by (auto simp: ensure_transcripts_folder_def makedirs_def Let_def split: option.splits)

lemma ensure_Return_iff:
  "(\<exists>d. fst (ensure_transcripts_folder e w) = Return d) \<longleftrightarrow> folder_available e w"
  by (auto simp: ensure_outcome folder_available_def)





lemma get_without_key:
  "\<not> key_present e \<Longrightarrow>
     get_youtube_transcript e url vid d lang w = (SysExit 1, say NoApiKey w)"
  by (auto simp: get_youtube_transcript_def load_environment_def key_present_def
      split: option.splits)


text \<open>The fetcher, step by step, when the credential is there.\<close>

lemma get_with_key:
  assumes "api_key e = Some key" "key \<noteq> []"
  shows "get_youtube_transcript e url vid d lang w =
     (let (r2, w2) = ensure_transcripts_folder e w
      in case r2 of
           SysExit c \<Rightarrow> (SysExit c, w2)
         | Raise x \<Rightarrow> unexpected_error e url x w2
         | Return transcripts_dir \<Rightarrow>
             (let w4 = act (ApiCall key url lang) (say Fetching (say (Banner d url vid lang) w2))
              in case api e key url lang of
                   Transcript content \<Rightarrow>
                     (let w5 = say Retrieved w4;
                          filename = os_path_join transcripts_dir (vid @ ''.txt'')
                      in case write_err e filename of
                           None \<Rightarrow>
                             (Return True,
                              save_completed_url e url
                                (say (SavedTo filename)
                                   (w5\<lparr>transcripts := (transcripts w5)
                                          (filename \<mapsto> transcript_text vid url d lang content)\<rparr>)))
                         | Some x \<Rightarrow>
                             (Return False,
                              save_failed_url e url (''File save error: '' @ x) (say (FileSaveError x) w5)))
                 | SupadataError x \<Rightarrow>
                     (Return False,
                      save_failed_url e url (''Supadata API error: '' @ x) (say (ApiError x) w4))
                 | OtherError x \<Rightarrow>
                     (Return False,
                      save_failed_url e url (''Transcript fetch error: '' @ x) (say (FetchError x) w4))))"
  using assms
  by (simp add: get_youtube_transcript_def load_environment_def Let_def
        split: prod.splits outcome.splits api_result.splits option.splits)

lemma ensure_never_exits: "fst (ensure_transcripts_folder e w) \<noteq> SysExit c"
  by (simp add: ensure_outcome)

lemma get_returns:
  assumes "key_present e"
  shows "\<exists>ok. fst (get_youtube_transcript e url vid d lang w) = Return ok"
proof -
  from assms obtain key where k: "api_key e = Some key" "key \<noteq> []"
    by (auto simp: key_present_def split: option.splits)
  obtain r2 w2 where r: "ensure_transcripts_folder e w = (r2, w2)" by (cases "ensure_transcripts_folder e w")
  then have "r2 \<noteq> SysExit c" for c using ensure_never_exits [of e w c] by simp
  then show ?thesis
    by (cases r2)
       (auto simp: get_with_key [OF k] r Let_def unexpected_error_def
          split: api_result.splits option.splits)
qed











section \<open>The driver\<close>

lemma trace_say [simp]: "trace (say m w) = trace w @ (if is_banner m then [Print m] else [])"
  by (simp add: trace_def observed_def)

lemma trace_act [simp]: "trace (act a w) = trace w @ (if observed a then [a] else [])"
  by (simp add: trace_def)

lemma trace_ensure: "trace (snd (ensure_transcripts_folder e w)) = trace w"
  by (auto simp: ensure_transcripts_folder_def makedirs_def Let_def trace_def say_def observed_def
      split: option.splits)

lemma trace_save_completed: "trace (save_completed_url e url w) = trace w"
  by (simp add: trace_def save_completed_fields observed_def split: option.splits)

lemma trace_save_failed: "trace (save_failed_url e url reason w) = trace w"
  by (simp add: trace_def save_failed_fields observed_def split: option.splits)

lemma short_row_warnings_unobserved: "filter observed (short_row_warnings k rows) = []"
  by (induction rows arbitrary: k) (simp_all add: short_row_warnings_Nil short_row_warnings_Cons observed_def)

lemma read_csv_frame:
  "completed_txt (snd (read_csv_urls e f w)) = completed_txt w"
  "failed_txt (snd (read_csv_urls e f w)) = failed_txt w"
  "transcripts (snd (read_csv_urls e f w)) = transcripts w"
  "dirs (snd (read_csv_urls e f w)) = dirs w"
  "trace (snd (read_csv_urls e f w)) = trace w"
  by (simp_all add: read_csv_urls_eq trace_def short_row_warnings_unobserved observed_def
        split: csv_file.splits option.splits)

lemma read_csv_fst: "fst (read_csv_urls e f w) = fst (read_csv_urls e f w')"
  by (simp add: read_csv_urls_eq split: csv_file.splits)

lemma load_completed_frame:
  "completed_txt (snd (load_completed_urls e w)) = completed_txt w"
  "failed_txt (snd (load_completed_urls e w)) = failed_txt w"
  "transcripts (snd (load_completed_urls e w)) = transcripts w"
  "dirs (snd (load_completed_urls e w)) = dirs w"
  "trace (snd (load_completed_urls e w)) = trace w"
  by (simp_all add: load_completed_urls_def Let_def split: option.splits prod.splits)

lemma load_failed_frame:
  "completed_txt (snd (load_failed_urls e w)) = completed_txt w"
  "failed_txt (snd (load_failed_urls e w)) = failed_txt w"
  "transcripts (snd (load_failed_urls e w)) = transcripts w"
  "dirs (snd (load_failed_urls e w)) = dirs w"
  "trace (snd (load_failed_urls e w)) = trace w"
  by (simp_all add: load_failed_urls_def Let_def split: option.splits prod.splits)

lemma load_completed_fst:
  "completed_txt w' = completed_txt w \<Longrightarrow>
     fst (load_completed_urls e w') = fst (load_completed_urls e w)"
  by (simp add: load_completed_urls_def Let_def split: option.splits prod.splits)

lemma load_failed_fst:
  "failed_txt w' = failed_txt w \<Longrightarrow> fst (load_failed_urls e w') = fst (load_failed_urls e w)"
  by (simp add: load_failed_urls_def Let_def split: option.splits prod.splits)

lemma folder_available_mono:
  "folder_available e w \<Longrightarrow> dirs w \<subseteq> dirs w' \<Longrightarrow> folder_available e w'"
  by (auto simp: folder_available_def)

lemma key_present_the_key:
  "key_present e \<Longrightarrow> api_key e = Some (the_key e) \<and> the_key e \<noteq> []"
  by (auto simp: key_present_def the_key_def split: option.splits)

lemma get_dirs: "dirs w \<subseteq> dirs (snd (get_youtube_transcript e url vid d lang w))"
proof (cases "key_present e")
  case False
  then show ?thesis by (simp add: get_without_key)
next
  case True
  then have k: "api_key e = Some (the_key e)" "the_key e \<noteq> []"
    by (simp_all add: key_present_the_key)
  obtain r2 w2 where r: "ensure_transcripts_folder e w = (r2, w2)"
    by (cases "ensure_transcripts_folder e w")
  then have "dirs w \<subseteq> dirs w2" using ensure_fields(4) [of w e] by simp
  then show ?thesis
    by (cases r2)
       (auto simp: get_with_key [OF k] r Let_def unexpected_error_def save_completed_fields
          save_failed_fields split: api_result.splits option.splits)
qed

lemma trace_transcripts_update [simp]: "trace (w\<lparr>transcripts := x\<rparr>) = trace w"
  by (simp add: trace_def)

lemma get_trace:
  assumes "key_present e" "folder_available e w"
  shows "trace (snd (get_youtube_transcript e url vid d lang w)) =
           trace w @ [Print (Banner d url vid lang), ApiCall (the_key e) url lang]"
proof -
  from assms(1) have k: "api_key e = Some (the_key e)" "the_key e \<noteq> []"
    by (simp_all add: key_present_the_key)
  obtain r2 w2 where r: "ensure_transcripts_folder e w = (r2, w2)"
    by (cases "ensure_transcripts_folder e w")
  from assms(2) obtain dir where "fst (ensure_transcripts_folder e w) = Return dir"
    using ensure_Return_iff [of e w] by blast
  with r have r2: "r2 = Return dir" by simp
  have t: "trace w2 = trace w" using trace_ensure [of e w] r by simp
  show ?thesis
  proof (cases "api e (the_key e) url lang")
    case (Transcript content)
    show ?thesis
      by (cases "write_err e (os_path_join dir (vid @ ''.txt''))")
         (simp_all add: get_with_key [OF k] r r2 Transcript Let_def t trace_save_completed
            trace_save_failed observed_def)
  next
    case (SupadataError x)
    then show ?thesis
      by (simp add: get_with_key [OF k] r r2 Let_def t trace_save_failed observed_def)
  next
    case (OtherError x)
    then show ?thesis
      by (simp add: get_with_key [OF k] r r2 Let_def t trace_save_failed observed_def)
  qed
qed

lemma loop_with_key:
  assumes "key_present e"
  shows "folder_available e w \<Longrightarrow>
     (\<exists>s f. fst (process_loop e lang n recs i sf w) = Return (s, f)) \<and>
     trace (snd (process_loop e lang n recs i sf w)) = trace w @ loop_trace (the_key e) lang n i recs"
proof (induction recs arbitrary: i sf w)
  case Nil
  show ?case by (cases sf) simp
next
  case (Cons rec recs)
  obtain v u d where rec: "rec = (v, u, d)" by (cases rec)
  obtain s f where sf: "sf = (s, f)" by (cases sf)
  let ?w0 = "say (Processing i n d) w"
  have fa0: "folder_available e ?w0" using Cons.prems by (simp add: folder_available_def)
  obtain r w1 where g: "get_youtube_transcript e u v d lang ?w0 = (r, w1)"
    by (cases "get_youtube_transcript e u v d lang ?w0")
  from get_returns [OF assms, of u v d lang ?w0] g obtain ok where ok: "r = Return ok" by auto
  have t1: "trace w1 = trace w @ [Print (Banner d u v lang), ApiCall (the_key e) u lang]"
    using get_trace [OF assms fa0, of u v d lang] g by simp
  have fa1: "folder_available e w1"
    using folder_available_mono [OF fa0] get_dirs [of ?w0 e u v d lang] g by simp
  let ?w2 = "if i < n then act (Sleep 5) (say Pausing w1) else w1"
  have fa2: "folder_available e ?w2" using fa1 by (simp add: folder_available_def)
  have t2: "trace ?w2 = trace w1 @ (if i < n then [Sleep 5] else [])"
    by (simp add: observed_def)
  from Cons.IH [OF fa2, of "Suc i" "if ok then (Suc s, f) else (s, Suc f)"]
  show ?case by (simp add: rec sf g ok t1 t2)
qed

lemma loop_without_key:
  assumes "\<not> key_present e"
  shows "process_loop e lang n ((v, u, d) # rest) i sf w =
           (SysExit 1, say NoApiKey (say (Processing i n d) w))"
  by (cases sf) (simp add: get_without_key [OF assms])

lemma loop_trace_intersperse:
  "i + length recs = Suc n \<Longrightarrow>
     filter is_action (loop_trace key lang n i recs) =
       intersperse (Sleep 5) (map (\<lambda>(v, u, d). ApiCall key u lang) recs)"
proof (induction recs arbitrary: i)
  case Nil
  show ?case by simp
next
  case (Cons rec recs)
  obtain v u d where rec: "rec = (v, u, d)" by (cases rec)
  show ?case
  proof (cases recs)
    case Nil
    with Cons.prems show ?thesis by (simp add: rec is_action_def)
  next
    case (Cons rec' recs')
    with Cons.prems have "i < n" by simp
    moreover have "Suc i + length recs = Suc n" using Cons.prems by simp
    ultimately show ?thesis using Cons.IH [of "Suc i"] Cons by (simp add: rec is_action_def)
  qed
qed

lemma loop_trace_api:
  "concat (map (\<lambda>ev. case ev of ApiCall k u l \<Rightarrow> [u] | Print m \<Rightarrow> [] | Sleep n \<Rightarrow> [])
             (loop_trace key lang n i recs)) = map (\<lambda>(v, u, d). u) recs"
  by (induction recs arbitrary: i) auto

lemma loop_trace_announced:
  "concat (map (\<lambda>ev. case ev of
                          Print m \<Rightarrow> (case m of Banner d u v l \<Rightarrow> [(v, u, d)] | _ \<Rightarrow> [])
                        | ApiCall k u l \<Rightarrow> [] | Sleep n \<Rightarrow> [])
             (loop_trace key lang n i recs)) = recs"
  by (induction recs arbitrary: i) auto

text \<open>The projections of the log are projections of the trace.\<close>

lemma actions_trace: "actions w = filter is_action (trace w)"
proof -
  have "is_action ev \<and> observed ev \<longleftrightarrow> is_action ev" for ev
    by (cases ev) (simp_all add: is_action_def observed_def)
  then show ?thesis by (simp add: actions_def trace_def) (metis (lifting) filter_cong)
qed

lemma api_urls_filter:
  "concat (map (\<lambda>ev. case ev of ApiCall k u l \<Rightarrow> [u] | Print m \<Rightarrow> [] | Sleep n \<Rightarrow> []) evs) =
   concat (map (\<lambda>ev. case ev of ApiCall k u l \<Rightarrow> [u] | Print m \<Rightarrow> [] | Sleep n \<Rightarrow> [])
             (filter observed evs))"
  by (induction evs) (auto simp: observed_def split: event.splits)

lemma api_urls_trace:
  "api_urls w = concat (map (\<lambda>ev. case ev of ApiCall k u l \<Rightarrow> [u] | Print m \<Rightarrow> [] | Sleep n \<Rightarrow> [])
                          (trace w))"
  unfolding api_urls_def trace_def by (rule api_urls_filter)

lemma announced_filter:
  "concat (map (\<lambda>ev. case ev of
                          Print m \<Rightarrow> (case m of Banner d u v l \<Rightarrow> [(v, u, d)] | _ \<Rightarrow> [])
                        | ApiCall k u l \<Rightarrow> [] | Sleep n \<Rightarrow> []) evs) =
   concat (map (\<lambda>ev. case ev of
                          Print m \<Rightarrow> (case m of Banner d u v l \<Rightarrow> [(v, u, d)] | _ \<Rightarrow> [])
                        | ApiCall k u l \<Rightarrow> [] | Sleep n \<Rightarrow> [])
             (filter observed evs))"
proof (induction evs)
  case Nil
  show ?case by simp
next
  case (Cons ev evs)
  show ?case
  proof (cases ev)
    case (Print m)
    then show ?thesis using Cons.IH by (cases m) (simp_all add: observed_def)
  next
    case (ApiCall k u l)
    then show ?thesis using Cons.IH by (simp add: observed_def)
  next
    case (Sleep n)
    then show ?thesis using Cons.IH by (simp add: observed_def)
  qed
qed

lemma announced_trace:
  "announced w =
     concat (map (\<lambda>ev. case ev of
                          Print m \<Rightarrow> (case m of Banner d u v l \<Rightarrow> [(v, u, d)] | _ \<Rightarrow> [])
                        | ApiCall k u l \<Rightarrow> [] | Sleep n \<Rightarrow> []) (trace w))"
  unfolding announced_def trace_def by (rule announced_filter)

text \<open>The steps before the loop do not print the message about the credential.\<close>

lemma no_key_message_warnings: "Print NoApiKey \<notin> set (short_row_warnings k rows)"
  by (induction rows arbitrary: k) (simp_all add: short_row_warnings_Nil short_row_warnings_Cons)

lemma no_key_message_ensure:
  "Print NoApiKey \<in> set (log (snd (ensure_transcripts_folder e w)))
     \<longleftrightarrow> Print NoApiKey \<in> set (log w)"
  by (auto simp: ensure_transcripts_folder_def makedirs_def Let_def split: option.splits)

lemma no_key_message_read_csv:
  "Print NoApiKey \<in> set (log (snd (read_csv_urls e f w))) \<longleftrightarrow> Print NoApiKey \<in> set (log w)"
  by (auto simp: read_csv_urls_eq no_key_message_warnings split: csv_file.splits option.splits)

lemma no_key_message_load_completed:
  "Print NoApiKey \<in> set (log (snd (load_completed_urls e w))) \<longleftrightarrow> Print NoApiKey \<in> set (log w)"
  by (auto simp: load_completed_urls_def Let_def split: option.splits prod.splits)

lemma no_key_message_load_failed:
  "Print NoApiKey \<in> set (log (snd (load_failed_urls e w))) \<longleftrightarrow> Print NoApiKey \<in> set (log w)"
  by (auto simp: load_failed_urls_def Let_def split: option.splits prod.splits)

lemma process_not_available:
  assumes "\<not> folder_available e w"
  shows "fst (process_csv_urls e f lang w) = Return ()"
    "completed_txt (snd (process_csv_urls e f lang w)) = completed_txt w"
    "failed_txt (snd (process_csv_urls e f lang w)) = failed_txt w"
    "transcripts (snd (process_csv_urls e f lang w)) = transcripts w"
    "trace (snd (process_csv_urls e f lang w)) = trace w"
proof -
  obtain r0 w0 where r: "ensure_transcripts_folder e w = (r0, w0)"
    by (cases "ensure_transcripts_folder e w")
  from assms have "fst (ensure_transcripts_folder e w) = Raise (the (mkdir_err e ''transcripts_fallback''))"
    by (simp add: ensure_outcome folder_available_def)
  with r have r0: "r0 = Raise (the (mkdir_err e ''transcripts_fallback''))" by simp
  have f: "completed_txt w0 = completed_txt w" "failed_txt w0 = failed_txt w"
      "transcripts w0 = transcripts w" "trace w0 = trace w"
    using ensure_fields(1,2,3) [of e w] trace_ensure [of e w] r by simp_all
  show "fst (process_csv_urls e f lang w) = Return ()"
    "completed_txt (snd (process_csv_urls e f lang w)) = completed_txt w"
    "failed_txt (snd (process_csv_urls e f lang w)) = failed_txt w"
    "transcripts (snd (process_csv_urls e f lang w)) = transcripts w"
    "trace (snd (process_csv_urls e f lang w)) = trace w"
    by (simp_all add: process_csv_urls_def r r0 f)
qed

text \<open>
  The driver up to its loop: when the output directory is available, it reaches a world
  \<open>w3\<close> that differs from the first one in the directories and the messages only, with the
  records of the file and the two sets of the ledgers as they are at the start.
\<close>

lemma process_available:
  assumes "folder_available e w"
  shows "\<exists>w3. completed_txt w3 = completed_txt w \<and> failed_txt w3 = failed_txt w \<and>
           transcripts w3 = transcripts w \<and> dirs w \<subseteq> dirs w3 \<and> trace w3 = trace w \<and>
           (Print NoApiKey \<in> set (log w3) \<longleftrightarrow> Print NoApiKey \<in> set (log w)) \<and>
           process_csv_urls e f lang w =
             (if run_pending e f w = [] then
                (Return (), say (if fst (read_csv_urls e f w) = [] then NoUrls else AllProcessed) w3)
              else
                (let w4 = say (Found (length (run_pending e f w)) (length (fst (read_csv_urls e f w)))
                                 (card (fst (load_completed_urls e w)))
                                 (card (fst (load_failed_urls e w)))) w3;
                     (r, w5) = process_loop e lang (length (run_pending e f w)) (run_pending e f w)
                                 1 (0, 0) w4
                 in case r of
                      SysExit c \<Rightarrow> (SysExit c, w5)
                    | Raise x \<Rightarrow> (Raise x, w5)
                    | Return (successful, failed) \<Rightarrow>
                        (Return (),
                         say (Summary (length (fst (read_csv_urls e f w)))
                                (card (fst (load_completed_urls e w)))
                                (card (fst (load_failed_urls e w)))
                                (length (run_pending e f w)) successful failed) w5)))"
proof -
  obtain r0 w0 where r: "ensure_transcripts_folder e w = (r0, w0)"
    by (cases "ensure_transcripts_folder e w")
  from assms obtain dir where "fst (ensure_transcripts_folder e w) = Return dir"
    using ensure_Return_iff [of e w] by blast
  with r have r0: "r0 = Return dir" by simp
  have f0: "completed_txt w0 = completed_txt w" "failed_txt w0 = failed_txt w"
      "transcripts w0 = transcripts w" "trace w0 = trace w" "dirs w \<subseteq> dirs w0"
      "Print NoApiKey \<in> set (log w0) \<longleftrightarrow> Print NoApiKey \<in> set (log w)"
    using ensure_fields(1,2,3) [of e w] ensure_fields(4) [of w e] trace_ensure [of e w]
      no_key_message_ensure [of e w] r by simp_all
  let ?wa = "say (WillSaveTo dir) w0"
  obtain urls w1 where c: "read_csv_urls e f ?wa = (urls, w1)" by (cases "read_csv_urls e f ?wa")
  have urls: "urls = fst (read_csv_urls e f w)" using read_csv_fst [of e f ?wa w] c by simp
  have f1: "completed_txt w1 = completed_txt w" "failed_txt w1 = failed_txt w"
      "transcripts w1 = transcripts w" "trace w1 = trace w" "dirs w \<subseteq> dirs w1"
      "Print NoApiKey \<in> set (log w1) \<longleftrightarrow> Print NoApiKey \<in> set (log w)"
    using read_csv_frame [of e f ?wa] no_key_message_read_csv [of e f ?wa] c f0 by simp_all
  obtain cs w2 where lc: "load_completed_urls e w1 = (cs, w2)" by (cases "load_completed_urls e w1")
  have cs: "cs = fst (load_completed_urls e w)" using load_completed_fst [OF f1(1), of e] lc by simp
  have f2: "completed_txt w2 = completed_txt w" "failed_txt w2 = failed_txt w"
      "transcripts w2 = transcripts w" "trace w2 = trace w" "dirs w \<subseteq> dirs w2"
      "Print NoApiKey \<in> set (log w2) \<longleftrightarrow> Print NoApiKey \<in> set (log w)"
    using load_completed_frame [of e w1] no_key_message_load_completed [of e w1] lc f1 by simp_all
  obtain fs w3 where lf: "load_failed_urls e w2 = (fs, w3)" by (cases "load_failed_urls e w2")
  have fs: "fs = fst (load_failed_urls e w)" using load_failed_fst [OF f2(2), of e] lf by simp
  have f3: "completed_txt w3 = completed_txt w" "failed_txt w3 = failed_txt w"
      "transcripts w3 = transcripts w" "trace w3 = trace w" "dirs w \<subseteq> dirs w3"
      "Print NoApiKey \<in> set (log w3) \<longleftrightarrow> Print NoApiKey \<in> set (log w)"
    using load_failed_frame [of e w2] no_key_message_load_failed [of e w2] lf f2 by simp_all
  have p: "pending_filter cs fs urls = run_pending e f w"
    by (simp add: run_pending_def urls cs fs)
  show ?thesis
  proof (cases "urls = []")
    case True
    then have rp: "run_pending e f w = []" using p by (simp add: pending_filter_def)
    have "completed_txt w1 = completed_txt w \<and> failed_txt w1 = failed_txt w \<and>
           transcripts w1 = transcripts w \<and> dirs w \<subseteq> dirs w1 \<and> trace w1 = trace w \<and>
           (Print NoApiKey \<in> set (log w1) \<longleftrightarrow> Print NoApiKey \<in> set (log w)) \<and>
           process_csv_urls e f lang w = (Return (), say NoUrls w1)"
      using f1 True by (simp add: process_csv_urls_def r r0 c)
    then show ?thesis using rp True urls by (intro exI [of _ w1]) simp
  next
    case False
    have "process_csv_urls e f lang w =
             (if run_pending e f w = [] then (Return (), say AllProcessed w3)
              else
                (let w4 = say (Found (length (run_pending e f w)) (length urls) (card cs) (card fs)) w3;
                     (r, w5) = process_loop e lang (length (run_pending e f w)) (run_pending e f w)
                                 1 (0, 0) w4
                 in case r of
                      SysExit c \<Rightarrow> (SysExit c, w5)
                    | Raise x \<Rightarrow> (Raise x, w5)
                    | Return (successful, failed) \<Rightarrow>
                        (Return (),
                         say (Summary (length urls) (card cs) (card fs)
                                (length (run_pending e f w)) successful failed) w5)))"
      using False
      by (simp add: process_csv_urls_def r r0 c lc lf p Let_def split: prod.splits outcome.splits)
    then show ?thesis using f3 False unfolding urls cs fs by (intro exI [of _ w3]) simp
  qed
qed

text \<open>The trace of a run, in all cases.\<close>

lemma run_trace:
  "trace (snd (process_csv_urls e f lang w)) =
     trace w @
     (if key_present e \<and> folder_available e w
      then loop_trace (the_key e) lang (length (run_pending e f w)) 1 (run_pending e f w)
      else [])"
proof (cases "folder_available e w")
  case False
  then show ?thesis by (simp add: process_not_available)
next
  case True
  from process_available [OF True, of f lang] obtain w3 where
    w3: "dirs w \<subseteq> dirs w3" "trace w3 = trace w"
    and eq: "process_csv_urls e f lang w =
             (if run_pending e f w = [] then
                (Return (), say (if fst (read_csv_urls e f w) = [] then NoUrls else AllProcessed) w3)
              else
                (let w4 = say (Found (length (run_pending e f w)) (length (fst (read_csv_urls e f w)))
                                 (card (fst (load_completed_urls e w)))
                                 (card (fst (load_failed_urls e w)))) w3;
                     (r, w5) = process_loop e lang (length (run_pending e f w)) (run_pending e f w)
                                 1 (0, 0) w4
                 in case r of
                      SysExit c \<Rightarrow> (SysExit c, w5)
                    | Raise x \<Rightarrow> (Raise x, w5)
                    | Return (successful, failed) \<Rightarrow>
                        (Return (),
                         say (Summary (length (fst (read_csv_urls e f w)))
                                (card (fst (load_completed_urls e w)))
                                (card (fst (load_failed_urls e w)))
                                (length (run_pending e f w)) successful failed) w5)))"
    by blast
  let ?P = "run_pending e f w"
  let ?w4 = "say (Found (length ?P) (length (fst (read_csv_urls e f w)))
                                 (card (fst (load_completed_urls e w)))
                                 (card (fst (load_failed_urls e w)))) w3"
  show ?thesis
  proof (cases "?P = []")
    case True
    then show ?thesis using eq w3 by simp
  next
    case False
    have t4: "trace ?w4 = trace w" using w3 by simp
    show ?thesis
    proof (cases "key_present e")
      case kp: True
      have fa: "folder_available e ?w4"
        using folder_available_mono [OF True w3(1)] by (simp add: folder_available_def)
      obtain r w5 where l: "process_loop e lang (length ?P) ?P 1 (0, 0) ?w4 = (r, w5)"
        by (cases "process_loop e lang (length ?P) ?P 1 (0, 0) ?w4")
      from loop_with_key [OF kp fa, of lang "length ?P" ?P 1 "(0, 0)"] l
      obtain s fl where "r = Return (s, fl)"
        "trace w5 = trace w @ loop_trace (the_key e) lang (length ?P) 1 ?P"
        using t4 by auto
      then show ?thesis using eq False kp True l by (simp add: Let_def)
    next
      case nk: False
      obtain v u d rest where P: "?P = (v, u, d) # rest" using False by (cases ?P) auto
      have "process_loop e lang (length ?P) ?P 1 (0, 0) ?w4
              = (SysExit 1, say NoApiKey (say (Processing 1 (length ?P) d) ?w4))"
        unfolding P by (rule loop_without_key [OF nk])
      then show ?thesis using eq False nk t4 by (simp add: Let_def)
    qed
  qed
qed

lemma run_api_urls:
  "api_urls (snd (process_csv_urls e f lang w)) =
     api_urls w @
     (if key_present e \<and> folder_available e w
      then map (\<lambda>(video_id, url, description). url) (run_pending e f w) else [])"
  by (cases "key_present e \<and> folder_available e w")
     (auto simp: api_urls_trace run_trace loop_trace_api)

lemma run_announced:
  "announced (snd (process_csv_urls e f lang w)) =
     announced w @ (if key_present e \<and> folder_available e w then run_pending e f w else [])"
  by (cases "key_present e \<and> folder_available e w")
     (auto simp: announced_trace run_trace loop_trace_announced)

lemma pending_urls_not_in_ledgers:
  "u \<in> set (map (\<lambda>(video_id, url, description). url) (run_pending e f w)) \<Longrightarrow>
     u \<notin> fst (load_completed_urls e w) \<and> u \<notin> fst (load_failed_urls e w)"
  by (auto simp: run_pending_def pending_filter_def)

text \<open>
  Claim C2 as stated fails: without a credential the run stops at the first pending record,
  before the fetcher announces or fetches it; one record is pending and none is processed.
\<close>

theorem run_without_key_processes_nothing_counterexample:
  "run_pending (no_key_csv_env [[''abc123DEFgh'', ''https://youtu.be/abc123DEFgh'', ''Intro video'']])
     ''youtube_url.csv'' empty_world
     = [(''abc123DEFgh'', ''https://youtu.be/abc123DEFgh'', ''Intro video'')]
   \<and> process_csv_urls (no_key_csv_env [[''abc123DEFgh'', ''https://youtu.be/abc123DEFgh'', ''Intro video'']])
       ''youtube_url.csv'' ''en'' empty_world
     = (SysExit 1,
        \<lparr>completed_txt = None, failed_txt = None, transcripts = transcripts empty_world,
         dirs = {''transcripts''},
         log = [Print (CreatedFolder ''transcripts''), Print (WillSaveTo ''transcripts''),
                Print (LoadedCsv 1), Print (Found 1 1 0 0),
                Print (Processing 1 1 ''Intro video''), Print NoApiKey]\<rparr>)"
  by (simp add: run_pending_def pending_filter_def process_csv_urls_def read_csv_urls_def
        load_completed_urls_def load_failed_urls_def no_key_csv_env_def csv_env_def sample_env_def
        empty_world_def ensure_transcripts_folder_def makedirs_def say_def record_of_row_def
        strip_quotes_def strip_where_def get_youtube_transcript_def load_environment_def Let_def)

text \<open>
  Claim C2, amended. The pending records of a run are the records of the CSV file whose URL
  is in neither ledger as loaded at the start. When the credential is present and the output
  directory is available, the records that the run processes (those the fetcher announces)
  are exactly the pending records, in the order of the file, and the URLs fetched are their
  URLs; in every other run nothing is processed. In every run, a URL that is in one of the
  ledgers at the start is not fetched.
\<close>

theorem run_processes_pending:
  "run_pending e f w =
     filter (\<lambda>(video_id, url, description).
               url \<notin> fst (load_completed_urls e w) \<and> url \<notin> fst (load_failed_urls e w))
       (fst (read_csv_urls e f w))
   \<and> announced (snd (process_csv_urls e f lang w)) =
       announced w @ (if key_present e \<and> folder_available e w then run_pending e f w else [])
   \<and> api_urls (snd (process_csv_urls e f lang w)) =
       api_urls w @
       (if key_present e \<and> folder_available e w
        then map (\<lambda>(video_id, url, description). url) (run_pending e f w) else [])
   \<and> (\<forall>u\<in>fst (load_completed_urls e w) \<union> fst (load_failed_urls e w).
         count_list (api_urls (snd (process_csv_urls e f lang w))) u = count_list (api_urls w) u)"
proof -
  have "count_list (api_urls (snd (process_csv_urls e f lang w))) u = count_list (api_urls w) u"
    if "u \<in> fst (load_completed_urls e w) \<union> fst (load_failed_urls e w)" for u
  proof -
    from that pending_urls_not_in_ledgers [of u e f w]
    have "u \<notin> set (map (\<lambda>(video_id, url, description). url) (run_pending e f w))" by blast
    then have "count_list (map (\<lambda>(video_id, url, description). url) (run_pending e f w)) u = 0"
      by simp
    then show ?thesis by (simp add: run_api_urls)
  qed
  then show ?thesis
    by (simp add: run_api_urls run_announced) (simp add: run_pending_def pending_filter_def)
qed

theorem run_processes_pending_witness:
  "announced (snd (process_csv_urls two_row_env ''youtube_url.csv'' ''en'' one_done_world))
     = [(''ABC123defGH'', ''https://youtu.be/ABC123defGH'', [])]
   \<and> count_list (api_urls (snd (process_csv_urls two_row_env ''youtube_url.csv'' ''en'' one_done_world)))
        ''https://youtu.be/abc123DEFgh'' = 0"
proof -
  let ?e = two_row_env
  let ?w = one_done_world
  have k: "key_present ?e \<and> folder_available ?e ?w"
    by (simp add: key_present_def folder_available_def two_row_env_def csv_env_def sample_env_def)
  have c: "fst (load_completed_urls ?e ?w) = {''https://youtu.be/abc123DEFgh''}"
    by (simp add: load_completed_urls_def two_row_env_def one_done_world_def csv_env_def
          sample_env_def empty_world_def file_lines_def strip_def strip_where_def py_isspace_def Let_def)
  have f: "fst (load_failed_urls ?e ?w) = {}"
    by (simp add: load_failed_urls_def one_done_world_def empty_world_def)
  have r: "fst (read_csv_urls ?e ''youtube_url.csv'' ?w)
             = [(''abc123DEFgh'', ''https://youtu.be/abc123DEFgh'', ''Intro video''),
                (''ABC123defGH'', ''https://youtu.be/ABC123defGH'', [])]"
    by (simp add: read_csv_urls_def two_row_env_def csv_env_def sample_env_def record_of_row_def
          strip_quotes_def strip_where_def)
  have a: "announced ?w = [] \<and> api_urls ?w = []"
    by (simp add: announced_def api_urls_def one_done_world_def empty_world_def)
  note t = run_processes_pending [of ?e "''youtube_url.csv''" ?w "''en''"]
  have p: "run_pending ?e ''youtube_url.csv'' ?w
             = [(''ABC123defGH'', ''https://youtu.be/ABC123defGH'', [])]"
    using t [THEN conjunct1] by (simp add: c f r)
  have 1: "announced (snd (process_csv_urls ?e ''youtube_url.csv'' ''en'' ?w))
             = [(''ABC123defGH'', ''https://youtu.be/ABC123defGH'', [])]"
    using t [THEN conjunct2, THEN conjunct1] k a p by simp
  have 2: "count_list (api_urls (snd (process_csv_urls ?e ''youtube_url.csv'' ''en'' ?w)))
        ''https://youtu.be/abc123DEFgh'' = 0"
    using t [THEN conjunct2, THEN conjunct2, THEN conjunct2] c a by simp
  from 1 2 show ?thesis by (rule conjI)
qed

text \<open>
  Claim C8 as stated fails: without a credential two records are pending, and the run ends
  at the first of them; the second is never reached and there is no pause.
\<close>

theorem run_without_key_no_pause_counterexample:
  "run_pending no_key_two_row_env ''youtube_url.csv'' empty_world
     = [(''abc123DEFgh'', ''https://youtu.be/abc123DEFgh'', ''Intro video''),
        (''ABC123defGH'', ''https://youtu.be/ABC123defGH'', [])]
   \<and> fst (process_csv_urls no_key_two_row_env ''youtube_url.csv'' ''en'' empty_world) = SysExit 1
   \<and> log (snd (process_csv_urls no_key_two_row_env ''youtube_url.csv'' ''en'' empty_world))
     = [Print (CreatedFolder ''transcripts''), Print (WillSaveTo ''transcripts''),
        Print (LoadedCsv 2), Print (Found 2 2 0 0),
        Print (Processing 1 2 ''Intro video''), Print NoApiKey]"
  by (simp add: run_pending_def pending_filter_def process_csv_urls_def read_csv_urls_def
        load_completed_urls_def load_failed_urls_def no_key_two_row_env_def two_row_env_def
        csv_env_def sample_env_def
        empty_world_def ensure_transcripts_folder_def makedirs_def say_def record_of_row_def
        strip_quotes_def strip_where_def get_youtube_transcript_def load_environment_def Let_def)

text \<open>
  Claim C8, amended. In every run in which the credential is present and the output
  directory is available, the requests to the service and the pauses are, in this order: a
  request for each pending record, in the order of the CSV file, with one pause of 5
  seconds between two requests that follow each other, so after every record except the
  last. In every other run there is neither a request nor a pause.
\<close>

theorem run_order_and_pauses:
  "actions (snd (process_csv_urls e f lang w)) =
     actions w @
     (if key_present e \<and> folder_available e w
      then intersperse (Sleep 5)
             (map (\<lambda>(video_id, url, description). ApiCall (the_key e) url lang) (run_pending e f w))
      else [])"
  by (cases "key_present e \<and> folder_available e w")
     (auto simp: actions_trace run_trace loop_trace_intersperse)

theorem run_order_and_pauses_witness:
  "actions (snd (process_csv_urls two_row_env ''youtube_url.csv'' ''en'' empty_world))
     = [ApiCall ''secret'' ''https://youtu.be/abc123DEFgh'' ''en'', Sleep 5,
        ApiCall ''secret'' ''https://youtu.be/ABC123defGH'' ''en'']"
proof -
  have k: "key_present two_row_env \<and> folder_available two_row_env empty_world"
    by (simp add: key_present_def folder_available_def two_row_env_def csv_env_def sample_env_def)
  have p: "run_pending two_row_env ''youtube_url.csv'' empty_world
     = [(''abc123DEFgh'', ''https://youtu.be/abc123DEFgh'', ''Intro video''),
        (''ABC123defGH'', ''https://youtu.be/ABC123defGH'', [])]"
    by (simp add: run_pending_def pending_filter_def read_csv_urls_def
        load_completed_urls_def load_failed_urls_def two_row_env_def
        csv_env_def sample_env_def empty_world_def record_of_row_def
        strip_quotes_def strip_where_def)
  have a: "actions empty_world = []" by (simp add: actions_def empty_world_def)
  have t: "the_key two_row_env = ''secret''"
    by (simp add: the_key_def two_row_env_def csv_env_def sample_env_def)
  show ?thesis
    using run_order_and_pauses [of two_row_env "''youtube_url.csv''" "''en''" empty_world] k
    by (simp add: p a t)
qed

lemma count_pending:
  assumes "u \<notin> cs" "u \<notin> fs"
  shows "count_list (map (\<lambda>(video_id, url, description). url) (pending_filter cs fs urls)) u
           = count_list (map (\<lambda>(video_id, url, description). url) urls) u"
  using assms by (induction urls) (auto simp: pending_filter_def)

text \<open>
  Claim C10 as stated fails: without a credential a URL that stands in two rows and in no
  ledger is not fetched at all.
\<close>

theorem duplicate_without_key_counterexample:
  "fst (read_csv_urls no_key_twice_env ''youtube_url.csv'' empty_world)
     = [(''abc123DEFgh'', ''https://youtu.be/abc123DEFgh'', ''Intro video''),
        (''again'', ''https://youtu.be/abc123DEFgh'', ''Same video'')]
   \<and> fst (process_csv_urls no_key_twice_env ''youtube_url.csv'' ''en'' empty_world) = SysExit 1
   \<and> api_urls (snd (process_csv_urls no_key_twice_env ''youtube_url.csv'' ''en'' empty_world)) = []"
  by (simp add: process_csv_urls_def read_csv_urls_def pending_filter_def
        load_completed_urls_def load_failed_urls_def no_key_twice_env_def twice_env_def
        csv_env_def sample_env_def api_urls_def
        empty_world_def ensure_transcripts_folder_def makedirs_def say_def record_of_row_def
        strip_quotes_def strip_where_def get_youtube_transcript_def load_environment_def Let_def)

text \<open>
  Claim C10, amended. The pending records are computed once, from the ledgers as they are
  loaded at the start of the run. So in a run in which the credential is present and the
  output directory is available, a URL that is in neither ledger at the start is fetched
  once for each row of the CSV file that has it, also when an earlier row with the same
  URL has been recorded as completed or failed in the meantime.
\<close>

theorem duplicate_rows_fetched_each_time:
  assumes "key_present e" "folder_available e w"
    "u \<notin> fst (load_completed_urls e w)" "u \<notin> fst (load_failed_urls e w)"
  shows "count_list (api_urls (snd (process_csv_urls e f lang w))) u
           = count_list (api_urls w) u +
             count_list (map (\<lambda>(video_id, url, description). url) (fst (read_csv_urls e f w))) u"
  using assms(1,2) count_pending [OF assms(3,4)]
  by (simp add: run_api_urls run_pending_def)

theorem duplicate_rows_fetched_each_time_witness:
  "count_list (api_urls (snd (process_csv_urls twice_env ''youtube_url.csv'' ''en'' empty_world)))
     ''https://youtu.be/abc123DEFgh'' = 2
   \<and> completed_txt (snd (process_csv_urls twice_env ''youtube_url.csv'' ''en'' empty_world))
     = Some (''https://youtu.be/abc123DEFgh'' @ [LF] @ ''https://youtu.be/abc123DEFgh'' @ [LF])"
proof -
  have h: "key_present twice_env" "folder_available twice_env empty_world"
    "''https://youtu.be/abc123DEFgh'' \<notin> fst (load_completed_urls twice_env empty_world)"
    "''https://youtu.be/abc123DEFgh'' \<notin> fst (load_failed_urls twice_env empty_world)"
    by (simp_all add: key_present_def folder_available_def twice_env_def csv_env_def sample_env_def
          load_completed_urls_def load_failed_urls_def empty_world_def)
  have r: "fst (read_csv_urls twice_env ''youtube_url.csv'' empty_world)
     = [(''abc123DEFgh'', ''https://youtu.be/abc123DEFgh'', ''Intro video''),
        (''again'', ''https://youtu.be/abc123DEFgh'', ''Same video'')]"
    by (simp add: read_csv_urls_def twice_env_def csv_env_def sample_env_def record_of_row_def
          strip_quotes_def strip_where_def)
  have a: "api_urls empty_world = []" by (simp add: api_urls_def empty_world_def)
  have 1: "count_list (api_urls (snd (process_csv_urls twice_env ''youtube_url.csv'' ''en'' empty_world)))
     ''https://youtu.be/abc123DEFgh'' = 2"
    using duplicate_rows_fetched_each_time [OF h, of "''youtube_url.csv''" "''en''"]
    by (simp add: r a)
  have 2: "completed_txt (snd (process_csv_urls twice_env ''youtube_url.csv'' ''en'' empty_world))
     = Some (''https://youtu.be/abc123DEFgh'' @ [LF] @ ''https://youtu.be/abc123DEFgh'' @ [LF])"
    by (simp add: process_csv_urls_def read_csv_urls_def pending_filter_def
        load_completed_urls_def load_failed_urls_def twice_env_def
        csv_env_def sample_env_def save_completed_url_def file_text_def os_path_join_def act_def
        empty_world_def ensure_transcripts_folder_def makedirs_def say_def record_of_row_def
        strip_quotes_def strip_where_def get_youtube_transcript_def load_environment_def Let_def)
  from 1 2 show ?thesis by (rule conjI)
qed

lemma run_pending_cong:
  assumes "completed_txt w' = completed_txt w" "failed_txt w' = failed_txt w"
  shows "run_pending e f w' = run_pending e f w"
proof -
  have "fst (read_csv_urls e f w') = fst (read_csv_urls e f w)" by (rule read_csv_fst)
  moreover have "fst (load_completed_urls e w') = fst (load_completed_urls e w)"
    using assms(1) by (rule load_completed_fst)
  moreover have "fst (load_failed_urls e w') = fst (load_failed_urls e w)"
    using assms(2) by (rule load_failed_fst)
  ultimately show ?thesis by (simp only: run_pending_def)
qed

text \<open>A run of the driver without a credential.\<close>

lemma process_without_key:
  assumes "\<not> key_present e" "folder_available e w"
  shows "fst (process_csv_urls e f lang w) = (if run_pending e f w = [] then Return () else SysExit 1)"
    "completed_txt (snd (process_csv_urls e f lang w)) = completed_txt w"
    "failed_txt (snd (process_csv_urls e f lang w)) = failed_txt w"
    "transcripts (snd (process_csv_urls e f lang w)) = transcripts w"
    "Print NoApiKey \<in> set (log (snd (process_csv_urls e f lang w)))
       \<longleftrightarrow> run_pending e f w \<noteq> [] \<or> Print NoApiKey \<in> set (log w)"
proof -
  from process_available [OF assms(2), of f lang] obtain w3 where
    w3: "completed_txt w3 = completed_txt w" "failed_txt w3 = failed_txt w"
        "transcripts w3 = transcripts w"
        "Print NoApiKey \<in> set (log w3) \<longleftrightarrow> Print NoApiKey \<in> set (log w)"
    and eq: "process_csv_urls e f lang w =
             (if run_pending e f w = [] then
                (Return (), say (if fst (read_csv_urls e f w) = [] then NoUrls else AllProcessed) w3)
              else
                (let w4 = say (Found (length (run_pending e f w)) (length (fst (read_csv_urls e f w)))
                                 (card (fst (load_completed_urls e w)))
                                 (card (fst (load_failed_urls e w)))) w3;
                     (r, w5) = process_loop e lang (length (run_pending e f w)) (run_pending e f w)
                                 1 (0, 0) w4
                 in case r of
                      SysExit c \<Rightarrow> (SysExit c, w5)
                    | Raise x \<Rightarrow> (Raise x, w5)
                    | Return (successful, failed) \<Rightarrow>
                        (Return (),
                         say (Summary (length (fst (read_csv_urls e f w)))
                                (card (fst (load_completed_urls e w)))
                                (card (fst (load_failed_urls e w)))
                                (length (run_pending e f w)) successful failed) w5)))"
    by blast
  let ?P = "run_pending e f w"
  let ?w4 = "say (Found (length ?P) (length (fst (read_csv_urls e f w)))
                                 (card (fst (load_completed_urls e w)))
                                 (card (fst (load_failed_urls e w)))) w3"
  have r: "process_csv_urls e f lang w =
             (if ?P = [] then
                (Return (), say (if fst (read_csv_urls e f w) = [] then NoUrls else AllProcessed) w3)
              else (SysExit 1, say NoApiKey (say (Processing 1 (length ?P) (snd (snd (hd ?P)))) ?w4)))"
  proof (cases "?P = []")
    case True
    then show ?thesis using eq by simp
  next
    case False
    then obtain v u d rest where P: "?P = (v, u, d) # rest" by (cases ?P) auto
    have "process_loop e lang (length ?P) ?P 1 (0, 0) ?w4
              = (SysExit 1, say NoApiKey (say (Processing 1 (length ?P) d) ?w4))"
      unfolding P by (rule loop_without_key [OF assms(1)])
    moreover have "snd (snd (hd ?P)) = d" by (simp add: P)
    ultimately show ?thesis using eq False by (simp add: Let_def)
  qed
  show "fst (process_csv_urls e f lang w) = (if ?P = [] then Return () else SysExit 1)"
    by (simp add: r)
  show "completed_txt (snd (process_csv_urls e f lang w)) = completed_txt w"
    "failed_txt (snd (process_csv_urls e f lang w)) = failed_txt w"
    "transcripts (snd (process_csv_urls e f lang w)) = transcripts w"
    by (simp_all add: r w3)
  show "Print NoApiKey \<in> set (log (snd (process_csv_urls e f lang w)))
       \<longleftrightarrow> ?P \<noteq> [] \<or> Print NoApiKey \<in> set (log w)"
    using w3(4) by (simp add: r)
qed

lemma main_started:
  assumes "parse_args argv ''en'' = Some lang" "folder_available e w"
  shows "\<exists>w1. main e argv w = process_csv_urls e ''youtube_url.csv'' lang w1 \<and>
           completed_txt w1 = completed_txt w \<and> failed_txt w1 = failed_txt w \<and>
           transcripts w1 = transcripts w \<and> trace w1 = trace w \<and> folder_available e w1 \<and>
           (Print NoApiKey \<in> set (log w1) \<longleftrightarrow> Print NoApiKey \<in> set (log w))"
proof -
  let ?w0 = "say Start w"
  obtain r w1 where en: "ensure_transcripts_folder e ?w0 = (r, w1)"
    by (cases "ensure_transcripts_folder e ?w0")
  have fa0: "folder_available e ?w0" using assms(2) by (simp add: folder_available_def)
  then obtain d where "fst (ensure_transcripts_folder e ?w0) = Return d"
    using ensure_Return_iff [of e ?w0] by blast
  with en have r: "r = Return d" by simp
  have f: "completed_txt w1 = completed_txt w" "failed_txt w1 = failed_txt w"
      "transcripts w1 = transcripts w" "trace w1 = trace w" "dirs ?w0 \<subseteq> dirs w1"
      "Print NoApiKey \<in> set (log w1) \<longleftrightarrow> Print NoApiKey \<in> set (log w)"
    using ensure_fields(1,2,3) [of e ?w0] ensure_fields(4) [of ?w0 e] trace_ensure [of e ?w0]
      no_key_message_ensure [of e ?w0] en
    by simp_all
  have "folder_available e w1" using folder_available_mono [OF fa0 f(5)] .
  moreover have "main e argv w = process_csv_urls e ''youtube_url.csv'' lang w1"
    by (simp add: main_def assms(1) en r)
  ultimately show ?thesis using f by blast
qed

text \<open>
  Claim C7 as stated fails: the credential is read by the fetcher, not at the start. With
  no credential and no CSV file the program reports that it found no URL and ends with
  status 0, without the instructional message.
\<close>

theorem main_without_key_and_csv_counterexample:
  "main no_key_env [''youtube_transcript_supadata.py''] empty_world
     = (Return (),
        \<lparr>completed_txt = None, failed_txt = None, transcripts = transcripts empty_world,
         dirs = {''transcripts''},
         log = [Print Start, Print (CreatedFolder ''transcripts''),
                Print (UsingFolder ''transcripts''), Print (WillSaveTo ''transcripts''),
                Print (CsvNotFound ''youtube_url.csv''), Print NoUrls]\<rparr>)
   \<and> exit_code (Return ()) = 0"
  by (simp add: main_def process_csv_urls_def read_csv_urls_def no_key_env_def sample_env_def
        empty_world_def ensure_transcripts_folder_def makedirs_def say_def Let_def)

text \<open>
  Claim C7, amended. Let the credential be absent (not set, or empty), the help text not
  asked for, and the output directory available. Then the program ends with exit code 1,
  and prints the instructional message, exactly when some record of the CSV file is
  pending; otherwise it ends with status 0 and without the message. In both cases no item
  is fetched, no ledger line is appended and no transcript file is written.
\<close>

theorem missing_key_exit:
  assumes "\<not> key_present e" "parse_args argv ''en'' = Some lang" "folder_available e w"
  shows "fst (main e argv w) =
           (if run_pending e ''youtube_url.csv'' w = [] then Return () else SysExit 1) \<and>
         exit_code (fst (main e argv w)) =
           (if run_pending e ''youtube_url.csv'' w = [] then 0 else 1) \<and>
         (Print NoApiKey \<in> set (log (snd (main e argv w))) \<longleftrightarrow>
            run_pending e ''youtube_url.csv'' w \<noteq> [] \<or> Print NoApiKey \<in> set (log w)) \<and>
         api_urls (snd (main e argv w)) = api_urls w \<and>
         completed_txt (snd (main e argv w)) = completed_txt w \<and>
         failed_txt (snd (main e argv w)) = failed_txt w \<and>
         transcripts (snd (main e argv w)) = transcripts w"
proof -
  from main_started [OF assms(2,3)] obtain w1 where
    m: "main e argv w = process_csv_urls e ''youtube_url.csv'' lang w1"
    and f: "completed_txt w1 = completed_txt w" "failed_txt w1 = failed_txt w"
      "transcripts w1 = transcripts w" "trace w1 = trace w"
      "Print NoApiKey \<in> set (log w1) \<longleftrightarrow> Print NoApiKey \<in> set (log w)"
    and fa: "folder_available e w1"
    by blast
  have p: "run_pending e ''youtube_url.csv'' w1 = run_pending e ''youtube_url.csv'' w"
    using f(1,2) by (rule run_pending_cong)
  note n = process_without_key [OF assms(1) fa, of "''youtube_url.csv''" lang, unfolded p]
  have a: "api_urls (snd (main e argv w)) = api_urls w"
    using assms(1) f(4) by (simp add: m api_urls_trace run_trace)
  show ?thesis using n a f by (simp add: m)
qed

theorem missing_key_exit_witness:
  "\<not> key_present no_key_two_row_env
   \<and> parse_args [''youtube_transcript_supadata.py'', ''--language'', ''es''] ''en'' = Some ''es''
   \<and> folder_available no_key_two_row_env empty_world
   \<and> run_pending no_key_two_row_env ''youtube_url.csv'' empty_world \<noteq> []
   \<and> fst (main no_key_two_row_env [''youtube_transcript_supadata.py'', ''--language'', ''es'']
            empty_world) = SysExit 1
   \<and> api_urls (snd (main no_key_two_row_env
            [''youtube_transcript_supadata.py'', ''--language'', ''es''] empty_world)) = []
   \<and> completed_txt (snd (main no_key_two_row_env
            [''youtube_transcript_supadata.py'', ''--language'', ''es''] empty_world)) = None
   \<and> failed_txt (snd (main no_key_two_row_env
            [''youtube_transcript_supadata.py'', ''--language'', ''es''] empty_world)) = None"
proof -
  have h: "\<not> key_present no_key_two_row_env"
    "parse_args [''youtube_transcript_supadata.py'', ''--language'', ''es''] ''en'' = Some ''es''"
    "folder_available no_key_two_row_env empty_world"
    by (simp_all add: key_present_def folder_available_def no_key_two_row_env_def two_row_env_def
          csv_env_def sample_env_def)
  have p: "run_pending no_key_two_row_env ''youtube_url.csv'' empty_world \<noteq> []"
    by (simp add: run_pending_def pending_filter_def read_csv_urls_def
        load_completed_urls_def load_failed_urls_def no_key_two_row_env_def two_row_env_def
        csv_env_def sample_env_def empty_world_def record_of_row_def
        strip_quotes_def strip_where_def)
  have w: "api_urls empty_world = [] \<and> completed_txt empty_world = None \<and>
           failed_txt empty_world = None"
    by (simp add: api_urls_def empty_world_def)
  show ?thesis using h p w missing_key_exit [OF h, of ] by simp
qed

end
